theory Spec2Isabelle
  imports Main "HOL-Library.Multiset"
begin

section \<open>The patch overlay of the alignment viewer (src/app.js)\<close>

subsection \<open>Data model\<close>

text \<open>
  Glossary entries, rules, morphemes and patches are plain JavaScript objects whose
  fields hold text. Such an object is a map from field names to text; reading a field
  the object does not have yields \<open>undefined\<close>, which is \<open>None\<close> here. The spread
  \<open>{...a, ...b}\<close> is \<open>a ++ b\<close>: the fields of \<open>b\<close> win, the others come from \<open>a\<close>.
  The order of the fields inside one object is not modelled, and fields that hold
  numbers, booleans, \<open>null\<close> or nested values are outside the model. The field names
  the program reads (\<open>id\<close>, \<open>form\<close>, \<open>gloss\<close>, \<open>type\<close>, \<open>description\<close>, ...) and the
  patch keys, which contain a colon, are not names of properties inherited from
  \<open>Object.prototype\<close>, so a lookup finds an own field or nothing.
\<close>

type_synonym jsobject = "string \<rightharpoonup> string"

text \<open>The only exception the modelled functions can raise.\<close>

datatype error = TypeError

text \<open>
  The first argument of \<open>getPatchKey\<close>, \<open>getEntryWithPatch\<close> and \<open>hasPatched\<close> is
  one of the three string literals the callers pass.
\<close>

datatype entity_kind = Glossary | Rule | Unknown

fun kind_name :: "entity_kind \<Rightarrow> string" where
  "kind_name Glossary = ''glossary''"
| "kind_name Rule = ''rule''"
| "kind_name Unknown = ''unknown''"

record Word =
  word :: string
  morphemes :: "jsobject list"

text \<open>
  The fields of the reactive \<open>state\<close> object that the modelled functions read or write:
  \<open>glossary\<close> and \<open>rules\<close> are \<open>null\<close> (\<open>None\<close>) or the loaded document (its
  \<open>entries\<close>, respectively \<open>rules\<close>, array). \<open>persisted\<close> is not a field of
  \<open>state\<close>: it records every store handed to \<open>savePatches\<close>, newest first.
\<close>

record State =
  glossary :: "jsobject list option"
  rules :: "jsobject list option"
  sidebarSearch :: string
  selectedWord :: "Word option"
  editingEntry :: "(entity_kind \<times> jsobject) option"
  patches :: "string \<rightharpoonup> jsobject"
  persisted :: "(string \<rightharpoonup> jsobject) list"

text \<open>The objects built by \<open>getMorphemeEntries\<close>.\<close>

record MorphemeEntry =
  entry_type :: string
  entry :: "jsobject option"
  originalEntry :: "jsobject option"
  morpheme :: jsobject

subsection \<open>JavaScript primitives\<close>

text \<open>String conversion inside a template literal and of the argument of \<open>localeCompare\<close>.\<close>

definition to_string :: "string option \<Rightarrow> string" where
  "to_string v = (case v of None \<Rightarrow> ''undefined'' | Some t \<Rightarrow> t)"

text \<open>\<open>!v\<close> for a value that is text or \<open>undefined\<close>.\<close>

definition falsy :: "string option \<Rightarrow> bool" where
  "falsy v = (case v of None \<Rightarrow> True | Some t \<Rightarrow> t = [])"

text \<open>\<open>v || ''\<close>.\<close>

definition or_empty :: "string option \<Rightarrow> string" where
  "or_empty v = (case v of None \<Rightarrow> [] | Some t \<Rightarrow> if t = [] then [] else t)"

text \<open>\<open>s.includes(t)\<close>: \<open>t\<close> occurs in \<open>s\<close> as a contiguous piece.\<close>

fun str_includes :: "string \<Rightarrow> string \<Rightarrow> bool" where
  "str_includes [] t = (t = [])"
| "str_includes (c # cs) t = (take (length t) (c # cs) = t \<or> str_includes cs t)"

text \<open>\<open>Array.prototype.filter\<close> with a callback that may throw: the first exception ends it.\<close>

fun filter_throwing :: "('a \<Rightarrow> error + bool) \<Rightarrow> 'a list \<Rightarrow> error + 'a list" where
  "filter_throwing p [] = Inr []"
| "filter_throwing p (x # xs) =
     (case p x of
        Inl e \<Rightarrow> Inl e
      | Inr keep \<Rightarrow>
          (case filter_throwing p xs of
             Inl e \<Rightarrow> Inl e
           | Inr ys \<Rightarrow> Inr (if keep then x # ys else ys)))"

text \<open>
  \<open>Array.prototype.sort\<close> with a comparison callback that may throw. The sort is stable
  (ECMAScript 2019); it is modelled as an insertion sort that calls \<open>compare a b\<close> with
  \<open>a\<close> the element that comes first in the input. Which pairs an engine compares, and
  in which order, is not fixed by the language, so when a callback throws the outcome
  of the model is that of one admissible engine.
\<close>

fun insert_sorted :: "('a \<Rightarrow> 'a \<Rightarrow> error + int) \<Rightarrow> 'a \<Rightarrow> 'a list \<Rightarrow> error + 'a list" where
  "insert_sorted compare a [] = Inr [a]"
| "insert_sorted compare a (b # bs) =
     (case compare a b of
        Inl e \<Rightarrow> Inl e
      | Inr c \<Rightarrow>
          if c \<le> 0 then Inr (a # b # bs)
          else (case insert_sorted compare a bs of
                  Inl e \<Rightarrow> Inl e
                | Inr rest \<Rightarrow> Inr (b # rest)))"

fun array_sort :: "('a \<Rightarrow> 'a \<Rightarrow> error + int) \<Rightarrow> 'a list \<Rightarrow> error + 'a list" where
  "array_sort compare [] = Inr []"
| "array_sort compare (a # as) =
     (case array_sort compare as of
        Inl e \<Rightarrow> Inl e
      | Inr sorted_as \<Rightarrow> insert_sorted compare a sorted_as)"

text \<open>
  \<open>Array.prototype.map\<close> with a callback that may throw.
\<close>

fun map_throwing :: "('a \<Rightarrow> error + 'b) \<Rightarrow> 'a list \<Rightarrow> error + 'b list" where
  "map_throwing f [] = Inr []"
| "map_throwing f (x # xs) =
     (case f x of
        Inl e \<Rightarrow> Inl e
      | Inr y \<Rightarrow>
          (case map_throwing f xs of
             Inl e \<Rightarrow> Inl e
           | Inr ys \<Rightarrow> Inr (y # ys)))"

text \<open>
  \<open>toLowerCase\<close> and \<open>localeCompare\<close> are supplied by the host and depend on its
  locale; the functions below take them as the parameters \<open>lower\<close> and \<open>lc\<close>. The two
  instances that follow are used to run the functions on concrete inputs: lower-casing
  of the ASCII letters, and comparison by code units.
\<close>

definition ascii_lower_char :: "char \<Rightarrow> char" where
  "ascii_lower_char c =
     (case map_of (zip ''ABCDEFGHIJKLMNOPQRSTUVWXYZ'' ''abcdefghijklmnopqrstuvwxyz'') c of
        Some l \<Rightarrow> l
      | None \<Rightarrow> c)"

definition ascii_lower :: "string \<Rightarrow> string" where
  "ascii_lower t = map ascii_lower_char t"

fun code_unit_compare :: "string \<Rightarrow> string \<Rightarrow> int" where
  "code_unit_compare [] [] = 0"
| "code_unit_compare [] (y # ys) = - 1"
| "code_unit_compare (x # xs) [] = 1"
| "code_unit_compare (x # xs) (y # ys) =
     (if (of_char x :: nat) < of_char y then - 1
      else if (of_char y :: nat) < of_char x then 1
      else code_unit_compare xs ys)"

text \<open>What the sorting results below require of \<open>localeCompare\<close>: it orders all text.\<close>

definition total_preorder :: "(string \<Rightarrow> string \<Rightarrow> int) \<Rightarrow> bool" where
  "total_preorder lc \<longleftrightarrow>
     (\<forall>a b. lc a b \<le> 0 \<or> lc b a \<le> 0) \<and>
     (\<forall>a b c. lc a b \<le> 0 \<and> lc b c \<le> 0 \<longrightarrow> lc a c \<le> 0)"

subsection \<open>Patch storage (lines 16 to 28)\<close>

definition getPatchKey :: "entity_kind \<Rightarrow> string option \<Rightarrow> string" where
  "getPatchKey ty idOrForm = kind_name ty @ '':'' @ to_string idOrForm"

definition getEntryWithPatch :: "State \<Rightarrow> entity_kind \<Rightarrow> jsobject \<Rightarrow> jsobject" where
  "getEntryWithPatch s ty ent =
     (let identifier = (if ty = Unknown then ent ''form'' else ent ''id'');
          key = getPatchKey ty identifier
      in case patches s key of
           Some patch \<Rightarrow> ent ++ patch
         | None \<Rightarrow> ent)"

definition hasPatched :: "State \<Rightarrow> entity_kind \<Rightarrow> string option \<Rightarrow> bool" where
  "hasPatched s ty idOrForm = (patches s (getPatchKey ty idOrForm) \<noteq> None)"

subsection \<open>Word status (lines 62 to 80)\<close>

definition getWordStatus :: "State \<Rightarrow> Word \<Rightarrow> string" where
  "getWordStatus s w =
     (let unknownMorphemes = filter (\<lambda>m. m ''type'' = Some ''unknown'') (morphemes w);
          knownMorphemes = filter (\<lambda>m. m ''type'' \<noteq> Some ''unknown'') (morphemes w);
          unpatchedUnknowns =
            filter (\<lambda>m. let patch = getEntryWithPatch s Unknown m
                        in falsy (patch ''gloss'') \<or> patch ''gloss'' = m ''gloss'')
              unknownMorphemes;
          hasUnpatched = (length unpatchedUnknowns > 0);
          hasPatched = (length unknownMorphemes > length unpatchedUnknowns);
          hasKnown = (length knownMorphemes > 0)
      in if hasUnpatched \<and> (hasKnown \<or> hasPatched) then ''mixed''
         else if hasUnpatched then ''unknown''
         else if hasPatched then ''patched''
         else ''known'')"

subsection \<open>Glossary and rule views (lines 96 to 159)\<close>

text \<open>
  The comparison callback \<open>(a, b) => a.form.localeCompare(b.form)\<close>: calling the method
  on an absent \<open>form\<close> throws; an absent argument is converted to text.
\<close>

definition compare_form :: "(string \<Rightarrow> string \<Rightarrow> int) \<Rightarrow> jsobject \<Rightarrow> jsobject \<Rightarrow> error + int" where
  "compare_form lc a b =
     (case a ''form'' of
        None \<Rightarrow> Inl TypeError
      | Some fa \<Rightarrow> Inr (lc fa (to_string (b ''form''))))"

text \<open>The identifiers collected from the selected word for one source type.\<close>

definition sourceIds :: "string \<Rightarrow> Word \<Rightarrow> string option list" where
  "sourceIds source_type selected =
     map (\<lambda>m. m ''source_id'')
       (filter (\<lambda>m. m ''source_type'' = Some source_type) (morphemes selected))"

text \<open>The search callback of the glossary view; \<open>||\<close> evaluates its right side only when needed.\<close>

definition glossary_matches :: "(string \<Rightarrow> string) \<Rightarrow> State \<Rightarrow> string \<Rightarrow> jsobject \<Rightarrow> error + bool" where
  "glossary_matches lower s search e =
     (let patched = getEntryWithPatch s Glossary e
      in case patched ''form'' of
           None \<Rightarrow> Inl TypeError
         | Some f \<Rightarrow>
             if str_includes (lower f) search then Inr True
             else (case patched ''gloss'' of
                     None \<Rightarrow> Inl TypeError
                   | Some g \<Rightarrow> Inr (str_includes (lower g) search)))"

definition getFilteredGlossary ::
  "(string \<Rightarrow> string) \<Rightarrow> (string \<Rightarrow> string \<Rightarrow> int) \<Rightarrow> State \<Rightarrow> error + jsobject list" where
  "getFilteredGlossary lower lc s =
     (case glossary s of
        None \<Rightarrow> Inr []
      | Some entries \<Rightarrow>
         (let search = lower (sidebarSearch s);
              scoped =
                (case selectedWord s of
                   None \<Rightarrow> entries
                 | Some selected \<Rightarrow>
                     if length (sourceIds ''glossary'' selected) > 0
                     then filter (\<lambda>e. e ''id'' \<in> set (sourceIds ''glossary'' selected)) entries
                     else entries)
          in (case (if search \<noteq> [] then filter_throwing (glossary_matches lower s search) scoped
                    else Inr scoped) of
                Inl err \<Rightarrow> Inl err
              | Inr found \<Rightarrow>
                  (case array_sort (compare_form lc) found of
                     Inl err \<Rightarrow> Inl err
                   | Inr ordered \<Rightarrow> Inr (take 50 ordered)))))"

definition rule_matches :: "(string \<Rightarrow> string) \<Rightarrow> State \<Rightarrow> string \<Rightarrow> jsobject \<Rightarrow> error + bool" where
  "rule_matches lower s search r =
     (let patched = getEntryWithPatch s Rule r
      in case patched ''form'' of
           None \<Rightarrow> Inl TypeError
         | Some f \<Rightarrow>
             if str_includes (lower f) search then Inr True
             else (case patched ''gloss'' of
                     None \<Rightarrow> Inl TypeError
                   | Some g \<Rightarrow>
                       if str_includes (lower g) search then Inr True
                       else (case patched ''description'' of
                               None \<Rightarrow> Inl TypeError
                             | Some d \<Rightarrow> Inr (str_includes (lower d) search))))"

definition getFilteredRules ::
  "(string \<Rightarrow> string) \<Rightarrow> (string \<Rightarrow> string \<Rightarrow> int) \<Rightarrow> State \<Rightarrow> error + jsobject list" where
  "getFilteredRules lower lc s =
     (case rules s of
        None \<Rightarrow> Inr []
      | Some all_rules \<Rightarrow>
         (let search = lower (sidebarSearch s);
              scoped =
                (case selectedWord s of
                   None \<Rightarrow> all_rules
                 | Some selected \<Rightarrow>
                     if length (sourceIds ''rule'' selected) > 0
                     then filter (\<lambda>r. r ''id'' \<in> set (sourceIds ''rule'' selected)) all_rules
                     else all_rules)
          in (case (if search \<noteq> [] then filter_throwing (rule_matches lower s search) scoped
                    else Inr scoped) of
                Inl err \<Rightarrow> Inl err
              | Inr found \<Rightarrow> array_sort (compare_form lc) found)))"

subsection \<open>Entries of a word's morphemes (lines 174 to 195)\<close>

definition unknown_entry :: "jsobject \<Rightarrow> MorphemeEntry" where
  "unknown_entry m =
     \<lparr>entry_type = ''unknown'', entry = None, originalEntry = None, morpheme = m\<rparr>"

definition morpheme_entry :: "State \<Rightarrow> jsobject \<Rightarrow> error + MorphemeEntry" where
  "morpheme_entry s m =
     (if m ''source_type'' = Some ''glossary'' then
        (case glossary s of
           None \<Rightarrow> Inl TypeError
         | Some entries \<Rightarrow>
             (case find (\<lambda>e. e ''id'' = m ''source_id'') entries of
                Some found \<Rightarrow>
                  Inr \<lparr>entry_type = ''glossary'',
                       entry = Some (getEntryWithPatch s Glossary found),
                       originalEntry = Some found, morpheme = m\<rparr>
              | None \<Rightarrow> Inr (unknown_entry m)))
      else if m ''source_type'' = Some ''rule'' then
        (case rules s of
           None \<Rightarrow> Inl TypeError
         | Some all_rules \<Rightarrow>
             (case find (\<lambda>r. r ''id'' = m ''source_id'') all_rules of
                Some found \<Rightarrow>
                  Inr \<lparr>entry_type = ''rule'',
                       entry = Some (getEntryWithPatch s Rule found),
                       originalEntry = Some found, morpheme = m\<rparr>
              | None \<Rightarrow> Inr (unknown_entry m)))
      else Inr (unknown_entry m))"

definition getMorphemeEntries :: "State \<Rightarrow> Word option \<Rightarrow> error + MorphemeEntry list" where
  "getMorphemeEntries s w =
     (case w of
        None \<Rightarrow> Inr []
      | Some selected \<Rightarrow> map_throwing (morpheme_entry s) (morphemes selected))"

subsection \<open>Saving an edit (lines 12 to 14 and 233 to 261)\<close>

definition savePatches :: "(string \<rightharpoonup> jsobject) \<Rightarrow> State \<Rightarrow> State" where
  "savePatches ps s = s\<lparr>persisted := ps # persisted s\<rparr>"

definition openEditModal :: "entity_kind \<Rightarrow> jsobject \<Rightarrow> State \<Rightarrow> State" where
  "openEditModal ty ent s = s\<lparr>editingEntry := Some (ty, ent)\<rparr>"

definition closeModal :: "State \<Rightarrow> State" where
  "closeModal s = s\<lparr>editingEntry := None\<rparr>"

text \<open>
  The loop over the inputs of the dialog that carry a \<open>data-field\<close> attribute: each is a
  pair of the field name and the text typed into it, in document order. An input is
  kept when its text differs from \<open>entry[field] || ''\<close>, the field of the entry the
  dialog was opened on, not of the effective record the dialog shows.
\<close>

fun collect_patch :: "jsobject \<Rightarrow> jsobject \<Rightarrow> (string \<times> string) list \<Rightarrow> jsobject" where
  "collect_patch ent patch [] = patch"
| "collect_patch ent patch ((field, v) # inputs) =
     collect_patch ent (if v \<noteq> or_empty (ent field) then patch(field \<mapsto> v) else patch) inputs"

text \<open>
  \<open>savePatch\<close>: destructuring \<open>state.editingEntry\<close> throws when no entry is being edited;
  \<open>{...state.patches[key], ...patch}\<close> spreads nothing for a key without a patch.
\<close>

definition savePatch :: "State \<Rightarrow> (string \<times> string) list \<Rightarrow> error + State" where
  "savePatch s inputs =
     (case editingEntry s of
        None \<Rightarrow> Inl TypeError
      | Some (ty, ent) \<Rightarrow>
         (let identifier = (if ty = Unknown then ent ''form'' else ent ''id'');
              key = getPatchKey ty identifier;
              patch = collect_patch ent Map.empty inputs
          in if patch \<noteq> Map.empty
             then
               (let previous = (case patches s key of None \<Rightarrow> Map.empty | Some old \<Rightarrow> old);
                    updated = (patches s)(key \<mapsto> previous ++ patch)
                in Inr (closeModal (savePatches updated (s\<lparr>patches := updated\<rparr>))))
             else Inr (closeModal s)))"

subsection \<open>Notions used to state the properties\<close>

text \<open>
  The key under which the patch of a record is stored: \<open>getEntryWithPatch\<close> and
  \<open>savePatch\<close> both compute it from the record's \<open>form\<close> for an unknown morpheme
  and from its \<open>id\<close> otherwise.
\<close>

definition patch_key_of :: "entity_kind \<Rightarrow> jsobject \<Rightarrow> string" where
  "patch_key_of ty ent = getPatchKey ty (if ty = Unknown then ent ''form'' else ent ''id'')"

text \<open>
  The state right after start-up, before any document is loaded, with \<open>ps\<close> the
  patches found in local storage.
\<close>

abbreviation initial_state :: "(string \<rightharpoonup> jsobject) \<Rightarrow> State" where
  "initial_state ps \<equiv>
     \<lparr>glossary = None, rules = None, sidebarSearch = [], selectedWord = None,
      editingEntry = None, patches = ps, persisted = []\<rparr>"

text \<open>
  The classification of a word in the words of its specification. A morpheme is unknown
  when its \<open>type\<close> is \<open>unknown\<close>; an unknown morpheme is resolved when its effective
  record, read through the patch stored for it, has a non-empty \<open>gloss\<close> that differs
  from the morpheme's own.
\<close>

definition is_unknown :: "jsobject \<Rightarrow> bool" where
  "is_unknown m \<longleftrightarrow> m ''type'' = Some ''unknown''"

definition resolved :: "State \<Rightarrow> jsobject \<Rightarrow> bool" where
  "resolved s m \<longleftrightarrow>
     (case getEntryWithPatch s Unknown m ''gloss'' of
        None \<Rightarrow> False
      | Some g \<Rightarrow> g \<noteq> [] \<and> Some g \<noteq> m ''gloss'')"

definition hasUnresolvedUnknown :: "State \<Rightarrow> Word \<Rightarrow> bool" where
  "hasUnresolvedUnknown s w \<longleftrightarrow> list_ex (\<lambda>m. is_unknown m \<and> \<not> resolved s m) (morphemes w)"

definition hasResolvedUnknown :: "State \<Rightarrow> Word \<Rightarrow> bool" where
  "hasResolvedUnknown s w \<longleftrightarrow> list_ex (\<lambda>m. is_unknown m \<and> resolved s m) (morphemes w)"

definition hasKnown :: "Word \<Rightarrow> bool" where
  "hasKnown w \<longleftrightarrow> list_ex (\<lambda>m. \<not> is_unknown m) (morphemes w)"

definition classify :: "State \<Rightarrow> Word \<Rightarrow> string" where
  "classify s w =
     (if hasUnresolvedUnknown s w \<and> (hasKnown w \<or> hasResolvedUnknown s w) then ''mixed''
      else if hasUnresolvedUnknown s w then ''unknown''
      else if hasResolvedUnknown s w then ''patched''
      else ''known'')"

text \<open>
  The text an edit is compared with: the field of the original record, an absent field
  counting as empty text.
\<close>

definition base_text :: "jsobject \<Rightarrow> string \<Rightarrow> string" where
  "base_text ent field = (case ent field of None \<Rightarrow> [] | Some t \<Rightarrow> t)"

text \<open>
  A morpheme has a dangling reference when its \<open>source_type\<close> is \<open>glossary\<close> or
  \<open>rule\<close> and no record of the loaded document of that type has its \<open>source_id\<close> as
  \<open>id\<close>.
\<close>

definition dangling :: "State \<Rightarrow> jsobject \<Rightarrow> bool" where
  "dangling s m \<longleftrightarrow>
     (m ''source_type'' = Some ''glossary'' \<and>
        (case glossary s of
           None \<Rightarrow> False
         | Some entries \<Rightarrow> list_all (\<lambda>e. e ''id'' \<noteq> m ''source_id'') entries)) \<or>
     (m ''source_type'' = Some ''rule'' \<and>
        (case rules s of
           None \<Rightarrow> False
         | Some all_rules \<Rightarrow> list_all (\<lambda>r. r ''id'' \<noteq> m ''source_id'') all_rules))"

text \<open>
  Notions for the two views. \<open>form_text\<close> is the \<open>form\<close> of a record as stored in
  its document, without its patch. \<open>sort_by_form\<close> is the stable
  sort by \<open>localeCompare\<close> of these forms, and \<open>ascending_by_form\<close> says that a list
  is in that order.
\<close>

definition form_text :: "jsobject \<Rightarrow> string" where
  "form_text e = to_string (e ''form'')"

fun insert_by_form :: "(string \<Rightarrow> string \<Rightarrow> int) \<Rightarrow> jsobject \<Rightarrow> jsobject list \<Rightarrow> jsobject list" where
  "insert_by_form lc a [] = [a]"
| "insert_by_form lc a (b # bs) =
     (if lc (form_text a) (form_text b) \<le> 0 then a # b # bs else b # insert_by_form lc a bs)"

fun sort_by_form :: "(string \<Rightarrow> string \<Rightarrow> int) \<Rightarrow> jsobject list \<Rightarrow> jsobject list" where
  "sort_by_form lc [] = []"
| "sort_by_form lc (a # as) = insert_by_form lc a (sort_by_form lc as)"

definition ascending_by_form :: "(string \<Rightarrow> string \<Rightarrow> int) \<Rightarrow> jsobject list \<Rightarrow> bool" where
  "ascending_by_form lc es = sorted_wrt (\<lambda>a b. lc (form_text a) (form_text b) \<le> 0) es"

text \<open>
  Scoping by the selected word: it applies when the word has at least one morpheme of the
  source type. A record is a hit when the query is empty or occurs, after lower-casing,
  in one of the searched fields of the effective record.
\<close>

definition glossary_scope :: "State \<Rightarrow> jsobject list \<Rightarrow> jsobject list" where
  "glossary_scope s entries =
     (case selectedWord s of
        None \<Rightarrow> entries
      | Some selected \<Rightarrow>
          if sourceIds ''glossary'' selected = [] then entries
          else filter (\<lambda>e. e ''id'' \<in> set (sourceIds ''glossary'' selected)) entries)"

definition glossary_hit :: "(string \<Rightarrow> string) \<Rightarrow> State \<Rightarrow> jsobject \<Rightarrow> bool" where
  "glossary_hit lower s e \<longleftrightarrow>
     lower (sidebarSearch s) = [] \<or>
     str_includes (lower (to_string (getEntryWithPatch s Glossary e ''form''))) (lower (sidebarSearch s)) \<or>
     str_includes (lower (to_string (getEntryWithPatch s Glossary e ''gloss''))) (lower (sidebarSearch s))"

definition rule_scope :: "State \<Rightarrow> jsobject list \<Rightarrow> jsobject list" where
  "rule_scope s all_rules =
     (case selectedWord s of
        None \<Rightarrow> all_rules
      | Some selected \<Rightarrow>
          if sourceIds ''rule'' selected = [] then all_rules
          else filter (\<lambda>r. r ''id'' \<in> set (sourceIds ''rule'' selected)) all_rules)"

definition rule_hit :: "(string \<Rightarrow> string) \<Rightarrow> State \<Rightarrow> jsobject \<Rightarrow> bool" where
  "rule_hit lower s r \<longleftrightarrow>
     lower (sidebarSearch s) = [] \<or>
     str_includes (lower (to_string (getEntryWithPatch s Rule r ''form''))) (lower (sidebarSearch s)) \<or>
     str_includes (lower (to_string (getEntryWithPatch s Rule r ''gloss''))) (lower (sidebarSearch s)) \<or>
     str_includes (lower (to_string (getEntryWithPatch s Rule r ''description''))) (lower (sidebarSearch s))"

section \<open>Reading a record through its patch\<close>

lemma getEntryWithPatch_key:
  "getEntryWithPatch s ty ent =
     (case patches s (patch_key_of ty ent) of Some patch \<Rightarrow> ent ++ patch | None \<Rightarrow> ent)"
  by (simp add: getEntryWithPatch_def patch_key_of_def Let_def)

text \<open>
  C1. For every kind and base record, \<open>getEntryWithPatch\<close> returns the base record
  unchanged when no patch is stored under the record's key; when a patch is stored it
  returns \<open>{...base, ...patch}\<close>, in which every field of the patch has the patch's
  value and every other field has the base record's; with an empty patch stored the
  result is the base record.
\<close>

theorem resolve_override:
  "(patches s (patch_key_of ty base) = None \<longrightarrow> getEntryWithPatch s ty base = base) \<and>
   (\<forall>patch. patches s (patch_key_of ty base) = Some patch \<longrightarrow>
      getEntryWithPatch s ty base = base ++ patch \<and>
      (\<forall>field v. patch field = Some v \<longrightarrow> getEntryWithPatch s ty base field = Some v) \<and>
      (\<forall>field. patch field = None \<longrightarrow> getEntryWithPatch s ty base field = base field)) \<and>
   (patches s (patch_key_of ty base) = Some Map.empty \<longrightarrow> getEntryWithPatch s ty base = base)"
  by (simp add: getEntryWithPatch_key map_add_def)

theorem resolve_override_witness:
  "getEntryWithPatch
     (initial_state [''glossary:g1'' \<mapsto> [''gloss'' \<mapsto> ''love (intr.)''], ''glossary:g3'' \<mapsto> Map.empty])
     Glossary [''id'' \<mapsto> ''g1'', ''form'' \<mapsto> ''ama'', ''pos'' \<mapsto> ''v'', ''gloss'' \<mapsto> ''love'']
   = [''id'' \<mapsto> ''g1'', ''form'' \<mapsto> ''ama'', ''pos'' \<mapsto> ''v'', ''gloss'' \<mapsto> ''love (intr.)''] \<and>
   getEntryWithPatch
     (initial_state [''glossary:g1'' \<mapsto> [''gloss'' \<mapsto> ''love (intr.)''], ''glossary:g3'' \<mapsto> Map.empty])
     Glossary [''id'' \<mapsto> ''g2'', ''form'' \<mapsto> ''dor'', ''gloss'' \<mapsto> ''sleep'']
   = [''id'' \<mapsto> ''g2'', ''form'' \<mapsto> ''dor'', ''gloss'' \<mapsto> ''sleep''] \<and>
   getEntryWithPatch
     (initial_state [''glossary:g1'' \<mapsto> [''gloss'' \<mapsto> ''love (intr.)''], ''glossary:g3'' \<mapsto> Map.empty])
     Glossary [''id'' \<mapsto> ''g3'', ''form'' \<mapsto> ''vid'', ''gloss'' \<mapsto> ''see'']
   = [''id'' \<mapsto> ''g3'', ''form'' \<mapsto> ''vid'', ''gloss'' \<mapsto> ''see'']"
  using
    resolve_override [of
      "initial_state [''glossary:g1'' \<mapsto> [''gloss'' \<mapsto> ''love (intr.)''], ''glossary:g3'' \<mapsto> Map.empty]"
      Glossary "[''id'' \<mapsto> ''g1'', ''form'' \<mapsto> ''ama'', ''pos'' \<mapsto> ''v'', ''gloss'' \<mapsto> ''love'']"]
    resolve_override [of
      "initial_state [''glossary:g1'' \<mapsto> [''gloss'' \<mapsto> ''love (intr.)''], ''glossary:g3'' \<mapsto> Map.empty]"
      Glossary "[''id'' \<mapsto> ''g2'', ''form'' \<mapsto> ''dor'', ''gloss'' \<mapsto> ''sleep'']"]
    resolve_override [of
      "initial_state [''glossary:g1'' \<mapsto> [''gloss'' \<mapsto> ''love (intr.)''], ''glossary:g3'' \<mapsto> Map.empty]"
      Glossary "[''id'' \<mapsto> ''g3'', ''form'' \<mapsto> ''vid'', ''gloss'' \<mapsto> ''see'']"]
  by (simp add: patch_key_of_def getPatchKey_def to_string_def)

text \<open>
  C8, as stated, fails: a patch of an unknown morpheme may change its \<open>form\<close>, which
  is the field its key is computed from, so reading the effective record again looks
  up another key. Here the morpheme \<open>a\<close> was renamed to \<open>b\<close>, and \<open>b\<close> has a patch
  of its own.
\<close>

theorem resolve_twice_counterexample:
  "getEntryWithPatch
     (initial_state [''unknown:a'' \<mapsto> [''form'' \<mapsto> ''b''], ''unknown:b'' \<mapsto> [''gloss'' \<mapsto> ''PAST'']])
     Unknown
     (getEntryWithPatch
        (initial_state [''unknown:a'' \<mapsto> [''form'' \<mapsto> ''b''], ''unknown:b'' \<mapsto> [''gloss'' \<mapsto> ''PAST'']])
        Unknown [''gloss'' \<mapsto> ''?'', ''form'' \<mapsto> ''a''])
   \<noteq> getEntryWithPatch
        (initial_state [''unknown:a'' \<mapsto> [''form'' \<mapsto> ''b''], ''unknown:b'' \<mapsto> [''gloss'' \<mapsto> ''PAST'']])
        Unknown [''gloss'' \<mapsto> ''?'', ''form'' \<mapsto> ''a'']"
proof
  assume eq: "getEntryWithPatch
     (initial_state [''unknown:a'' \<mapsto> [''form'' \<mapsto> ''b''], ''unknown:b'' \<mapsto> [''gloss'' \<mapsto> ''PAST'']])
     Unknown
     (getEntryWithPatch
        (initial_state [''unknown:a'' \<mapsto> [''form'' \<mapsto> ''b''], ''unknown:b'' \<mapsto> [''gloss'' \<mapsto> ''PAST'']])
        Unknown [''gloss'' \<mapsto> ''?'', ''form'' \<mapsto> ''a''])
   = getEntryWithPatch
        (initial_state [''unknown:a'' \<mapsto> [''form'' \<mapsto> ''b''], ''unknown:b'' \<mapsto> [''gloss'' \<mapsto> ''PAST'']])
        Unknown [''gloss'' \<mapsto> ''?'', ''form'' \<mapsto> ''a'']"
  from fun_cong [OF eq, of "''gloss''"] show False
    by (simp add: getEntryWithPatch_def getPatchKey_def to_string_def)
qed

text \<open>
  C8, amended. For every kind and base record whose effective record is stored under
  the same key as the base record (the patch, if any, leaves the identifying field
  \<open>id\<close>, or \<open>form\<close> for an unknown morpheme, as it was), reading the effective record
  through the store again yields the same effective record.
\<close>

theorem resolve_idempotent:
  "patch_key_of ty (getEntryWithPatch s ty base) = patch_key_of ty base \<Longrightarrow>
   getEntryWithPatch s ty (getEntryWithPatch s ty base) = getEntryWithPatch s ty base"
  by (auto simp: getEntryWithPatch_key map_add_def fun_eq_iff split: option.splits)

theorem resolve_idempotent_witness:
  "patch_key_of Glossary
     (getEntryWithPatch (initial_state [''glossary:g1'' \<mapsto> [''gloss'' \<mapsto> ''love (intr.)'']])
        Glossary [''id'' \<mapsto> ''g1'', ''form'' \<mapsto> ''ama'', ''gloss'' \<mapsto> ''love''])
   = patch_key_of Glossary [''id'' \<mapsto> ''g1'', ''form'' \<mapsto> ''ama'', ''gloss'' \<mapsto> ''love''] \<and>
   getEntryWithPatch (initial_state [''glossary:g1'' \<mapsto> [''gloss'' \<mapsto> ''love (intr.)'']]) Glossary
     (getEntryWithPatch (initial_state [''glossary:g1'' \<mapsto> [''gloss'' \<mapsto> ''love (intr.)'']])
        Glossary [''id'' \<mapsto> ''g1'', ''form'' \<mapsto> ''ama'', ''gloss'' \<mapsto> ''love''])
   = getEntryWithPatch (initial_state [''glossary:g1'' \<mapsto> [''gloss'' \<mapsto> ''love (intr.)'']])
        Glossary [''id'' \<mapsto> ''g1'', ''form'' \<mapsto> ''ama'', ''gloss'' \<mapsto> ''love'']"
proof -
  have key: "patch_key_of Glossary
     (getEntryWithPatch (initial_state [''glossary:g1'' \<mapsto> [''gloss'' \<mapsto> ''love (intr.)'']])
        Glossary [''id'' \<mapsto> ''g1'', ''form'' \<mapsto> ''ama'', ''gloss'' \<mapsto> ''love''])
   = patch_key_of Glossary [''id'' \<mapsto> ''g1'', ''form'' \<mapsto> ''ama'', ''gloss'' \<mapsto> ''love'']"
    by (simp add: patch_key_of_def getEntryWithPatch_def getPatchKey_def to_string_def)
  from key resolve_idempotent [OF key] show ?thesis by simp
qed

section \<open>Whether a record has been edited\<close>

text \<open>
  C10, as stated, fails: \<open>hasPatched\<close> tests only that some patch object is stored
  under the key, so it is true for a stored patch without fields.
\<close>

theorem hasPatched_empty_patch_counterexample:
  "hasPatched (initial_state [''glossary:g1'' \<mapsto> Map.empty]) Glossary (Some ''g1'') \<and>
   patches (initial_state [''glossary:g1'' \<mapsto> Map.empty]) (getPatchKey Glossary (Some ''g1''))
     = Some Map.empty"
  by (simp add: hasPatched_def getPatchKey_def to_string_def)

text \<open>
  C10, amended. For every kind and identifier, \<open>hasPatched\<close> is true if and only if a
  patch, empty or not, is stored under that key; in a store all of whose patches have
  at least one field this is the case if and only if a non-empty patch is stored under
  that key.
\<close>

theorem hasPatched_iff_stored:
  "(hasPatched s ty idOrForm \<longleftrightarrow> (\<exists>patch. patches s (getPatchKey ty idOrForm) = Some patch)) \<and>
   ((\<forall>key patch. patches s key = Some patch \<longrightarrow> patch \<noteq> Map.empty) \<longrightarrow>
      (hasPatched s ty idOrForm \<longleftrightarrow>
         (\<exists>patch. patches s (getPatchKey ty idOrForm) = Some patch \<and> patch \<noteq> Map.empty)))"
  by (auto simp: hasPatched_def)

theorem hasPatched_iff_stored_witness:
  "hasPatched (initial_state [''rule:r1'' \<mapsto> [''gloss'' \<mapsto> ''PAST'']]) Rule (Some ''r1'') \<and>
   (\<exists>patch. patches (initial_state [''rule:r1'' \<mapsto> [''gloss'' \<mapsto> ''PAST'']])
              (getPatchKey Rule (Some ''r1'')) = Some patch \<and> patch \<noteq> Map.empty) \<and>
   \<not> hasPatched (initial_state [''rule:r1'' \<mapsto> [''gloss'' \<mapsto> ''PAST'']]) Rule (Some ''r2'')"
proof -
  have inv: "\<forall>key patch. patches (initial_state [''rule:r1'' \<mapsto> [''gloss'' \<mapsto> ''PAST'']]) key = Some patch
      \<longrightarrow> patch \<noteq> Map.empty"
    by (auto split: if_splits)
  from inv
    hasPatched_iff_stored [of "initial_state [''rule:r1'' \<mapsto> [''gloss'' \<mapsto> ''PAST'']]" Rule "Some ''r1''"]
    hasPatched_iff_stored [of "initial_state [''rule:r1'' \<mapsto> [''gloss'' \<mapsto> ''PAST'']]" Rule "Some ''r2''"]
  show ?thesis
    by (simp add: getPatchKey_def to_string_def)
qed

section \<open>The status of a word\<close>

lemma length_filter_pos: "0 < length (filter P xs) \<longleftrightarrow> (\<exists>x\<in>set xs. P x)"
  by (simp add: filter_empty_conv)

lemma length_filter_lt: "length (filter Q ys) < length ys \<longleftrightarrow> (\<exists>x\<in>set ys. \<not> Q x)"
proof
  assume "length (filter Q ys) < length ys"
  then have "filter Q ys \<noteq> ys" by auto
  then show "\<exists>x\<in>set ys. \<not> Q x" by (simp add: filter_id_conv)
next
  assume "\<exists>x\<in>set ys. \<not> Q x"
  then show "length (filter Q ys) < length ys" by (auto intro: length_filter_less)
qed

lemma unpatched_iff: 
  "(let patch = getEntryWithPatch s Unknown m
    in falsy (patch ''gloss'') \<or> patch ''gloss'' = m ''gloss'') \<longleftrightarrow> \<not> resolved s m"
  by (auto simp: resolved_def falsy_def Let_def split: option.splits)

lemma resolved_stored_patch:
  "resolved s m \<longleftrightarrow>
     (\<exists>patch g. patches s (patch_key_of Unknown m) = Some patch \<and> patch ''gloss'' = Some g \<and>
        g \<noteq> [] \<and> Some g \<noteq> m ''gloss'')"
  by (auto simp: resolved_def getEntryWithPatch_key map_add_def split: option.splits)

text \<open>
  C2. For every word and every patch store, \<open>getWordStatus\<close> splits the morphemes into
  unknown ones and the others, counts an unknown morpheme as resolved exactly when
  \<open>resolved\<close> holds of it, and returns \<open>mixed\<close> when an unresolved unknown morpheme
  comes with a known or a resolved one, else \<open>unknown\<close> when there is an unresolved
  unknown morpheme, else \<open>patched\<close> when there is a resolved one, else \<open>known\<close>: always
  one of these four, also for a word without morphemes.
\<close>

theorem getWordStatus_classify:
  "getWordStatus s w = classify s w \<and>
   getWordStatus s w \<in> {''mixed'', ''unknown'', ''patched'', ''known''}"
proof -
  let ?unp = "\<lambda>m. let patch = getEntryWithPatch s Unknown m
                  in falsy (patch ''gloss'') \<or> patch ''gloss'' = m ''gloss''"
  let ?U = "filter (\<lambda>m. m ''type'' = Some ''unknown'') (morphemes w)"
  let ?K = "filter (\<lambda>m. m ''type'' \<noteq> Some ''unknown'') (morphemes w)"
  have unp: "?unp m \<longleftrightarrow> \<not> resolved s m" for m
    by (rule unpatched_iff)
  have a: "0 < length (filter ?unp ?U) \<longleftrightarrow> hasUnresolvedUnknown s w"
    unfolding length_filter_pos hasUnresolvedUnknown_def list_ex_iff is_unknown_def
    using unp by auto
  have b: "length (filter ?unp ?U) < length ?U \<longleftrightarrow> hasResolvedUnknown s w"
    unfolding length_filter_lt hasResolvedUnknown_def list_ex_iff is_unknown_def
    using unp by auto
  have c: "0 < length ?K \<longleftrightarrow> hasKnown w"
    unfolding length_filter_pos hasKnown_def list_ex_iff is_unknown_def by simp
  have "getWordStatus s w = classify s w"
    unfolding getWordStatus_def classify_def Let_def [of ?U] Let_def [of ?K]
      Let_def [of "filter ?unp ?U"] Let_def [of "0 < length (filter ?unp ?U)"]
      Let_def [of "length (filter ?unp ?U) < length ?U"] Let_def [of "0 < length ?K"]
    unfolding a b c by (rule refl)
  moreover have "classify s w \<in> {''mixed'', ''unknown'', ''patched'', ''known''}"
    by (simp add: classify_def)
  ultimately show ?thesis by simp
qed

theorem getWordStatus_classify_witness:
  "getWordStatus (initial_state Map.empty)
     \<lparr>word = ''amadi'',
      morphemes = [[''form'' \<mapsto> ''ama'', ''gloss'' \<mapsto> ''love'', ''type'' \<mapsto> ''known'',
                    ''source_type'' \<mapsto> ''glossary'', ''source_id'' \<mapsto> ''g1''],
                   [''form'' \<mapsto> ''di'', ''gloss'' \<mapsto> ''?'', ''type'' \<mapsto> ''unknown'']]\<rparr>
   = ''mixed'' \<and>
   getWordStatus (initial_state [''unknown:di'' \<mapsto> [''gloss'' \<mapsto> ''PAST'']])
     \<lparr>word = ''amadi'',
      morphemes = [[''form'' \<mapsto> ''ama'', ''gloss'' \<mapsto> ''love'', ''type'' \<mapsto> ''known'',
                    ''source_type'' \<mapsto> ''glossary'', ''source_id'' \<mapsto> ''g1''],
                   [''form'' \<mapsto> ''di'', ''gloss'' \<mapsto> ''?'', ''type'' \<mapsto> ''unknown'']]\<rparr>
   = ''patched''"
  using
    getWordStatus_classify [of "initial_state Map.empty"
     "\<lparr>word = ''amadi'',
      morphemes = [[''form'' \<mapsto> ''ama'', ''gloss'' \<mapsto> ''love'', ''type'' \<mapsto> ''known'',
                    ''source_type'' \<mapsto> ''glossary'', ''source_id'' \<mapsto> ''g1''],
                   [''form'' \<mapsto> ''di'', ''gloss'' \<mapsto> ''?'', ''type'' \<mapsto> ''unknown'']]\<rparr>"]
    getWordStatus_classify [of "initial_state [''unknown:di'' \<mapsto> [''gloss'' \<mapsto> ''PAST'']]"
     "\<lparr>word = ''amadi'',
      morphemes = [[''form'' \<mapsto> ''ama'', ''gloss'' \<mapsto> ''love'', ''type'' \<mapsto> ''known'',
                    ''source_type'' \<mapsto> ''glossary'', ''source_id'' \<mapsto> ''g1''],
                   [''form'' \<mapsto> ''di'', ''gloss'' \<mapsto> ''?'', ''type'' \<mapsto> ''unknown'']]\<rparr>"]
  by (simp add: classify_def hasUnresolvedUnknown_def hasResolvedUnknown_def hasKnown_def
      is_unknown_def resolved_def getEntryWithPatch_def getPatchKey_def to_string_def)

section \<open>Saving an edit\<close>

lemma or_empty_base_text: "or_empty (ent field) = base_text ent field"
  by (simp add: or_empty_def base_text_def split: option.splits)

lemma collect_patch_unchanged:
  "(\<And>v. (f, v) \<in> set inputs \<Longrightarrow> v = base_text ent f) \<Longrightarrow>
   collect_patch ent acc inputs f = acc f"
proof (induction inputs arbitrary: acc)
  case Nil
  then show ?case by simp
next
  case (Cons a inputs)
  obtain g v where a: "a = (g, v)" by (cases a)
  from Cons.prems have rest: "\<And>v. (f, v) \<in> set inputs \<Longrightarrow> v = base_text ent f" by simp
  from Cons.prems a have "g = f \<Longrightarrow> v = base_text ent f" by simp
  then show ?case
    using Cons.IH [OF rest] a by (simp add: or_empty_base_text)
qed

lemma collect_patch_origin:
  "collect_patch ent acc inputs f = Some v \<Longrightarrow>
   acc f = Some v \<or> ((f, v) \<in> set inputs \<and> v \<noteq> base_text ent f)"
proof (induction inputs arbitrary: acc)
  case Nil
  then show ?case by simp
next
  case (Cons a inputs)
  obtain g u where a: "a = (g, u)" by (cases a)
  show ?case
  proof (cases "u \<noteq> base_text ent g")
    case True
    with Cons.prems a have "collect_patch ent (acc(g \<mapsto> u)) inputs f = Some v"
      by (simp add: or_empty_base_text)
    from Cons.IH [OF this]
    have "(acc(g \<mapsto> u)) f = Some v \<or> ((f, v) \<in> set inputs \<and> v \<noteq> base_text ent f)" .
    then show ?thesis
    proof
      assume hit: "(acc(g \<mapsto> u)) f = Some v"
      show ?thesis
      proof (cases "f = g")
        case True
        with hit have "u = v" by simp
        with True \<open>u \<noteq> base_text ent g\<close> a show ?thesis by simp
      next
        case False
        with hit show ?thesis by simp
      qed
    next
      assume "(f, v) \<in> set inputs \<and> v \<noteq> base_text ent f"
      then show ?thesis by simp
    qed
  next
    case False
    with Cons.prems a have "collect_patch ent acc inputs f = Some v"
      by (simp add: or_empty_base_text)
    from Cons.IH [OF this] show ?thesis by auto
  qed
qed

lemma collect_patch_lookup:
  "distinct (map fst inputs) \<Longrightarrow>
   collect_patch ent acc inputs f =
     (case map_of inputs f of
        Some v \<Rightarrow> if v \<noteq> base_text ent f then Some v else acc f
      | None \<Rightarrow> acc f)"
proof (induction inputs arbitrary: acc)
  case Nil
  then show ?case by simp
next
  case (Cons a inputs)
  obtain g u where a: "a = (g, u)" by (cases a)
  from Cons.prems a have d: "distinct (map fst inputs)" and g: "g \<notin> fst ` set inputs" by auto
  from g have none: "map_of inputs g = None" by (simp add: map_of_eq_None_iff)
  let ?acc = "if u \<noteq> base_text ent g then acc(g \<mapsto> u) else acc"
  have step: "collect_patch ent acc (a # inputs) f = collect_patch ent ?acc inputs f"
    using a by (simp add: or_empty_base_text)
  show ?case
  proof (cases "f = g")
    case True
    with Cons.IH [OF d, of ?acc] none have "collect_patch ent ?acc inputs f = ?acc g" by simp
    with step True a show ?thesis by simp
  next
    case False
    then have same: "?acc f = acc f" by simp
    have "collect_patch ent ?acc inputs f =
      (case map_of inputs f of
        Some v \<Rightarrow> if v \<noteq> base_text ent f then Some v else acc f
      | None \<Rightarrow> acc f)"
      unfolding Cons.IH [OF d, of ?acc] same by (rule refl)
    with step False a show ?thesis by simp
  qed
qed

lemma savePatch_unchanged:
  assumes "editingEntry s = Some (ty, ent)" and "collect_patch ent Map.empty inputs = Map.empty"
  shows "savePatch s inputs = Inr (closeModal s)"
  unfolding savePatch_def using assms by (simp only: option.case prod.case Let_def) simp

lemma savePatch_changed:
  assumes "editingEntry s = Some (ty, ent)" and "collect_patch ent Map.empty inputs \<noteq> Map.empty"
  shows "savePatch s inputs =
     Inr (closeModal (savePatches
        ((patches s)(patch_key_of ty ent \<mapsto>
            (case patches s (patch_key_of ty ent) of None \<Rightarrow> Map.empty | Some old \<Rightarrow> old)
              ++ collect_patch ent Map.empty inputs))
        (s\<lparr>patches := (patches s)(patch_key_of ty ent \<mapsto>
            (case patches s (patch_key_of ty ent) of None \<Rightarrow> Map.empty | Some old \<Rightarrow> old)
              ++ collect_patch ent Map.empty inputs)\<rparr>)))"
  unfolding savePatch_def patch_key_of_def using assms
  by (simp only: option.case prod.case Let_def) simp

lemma savePatch_result:
  assumes "editingEntry s = Some (ty, ent)"
  shows "\<exists>s'. savePatch s inputs = Inr s' \<and> editingEntry s' = None \<and>
     patches s' =
       (if collect_patch ent Map.empty inputs = Map.empty then patches s
        else (patches s)(patch_key_of ty ent \<mapsto>
               (case patches s (patch_key_of ty ent) of None \<Rightarrow> Map.empty | Some old \<Rightarrow> old)
                 ++ collect_patch ent Map.empty inputs)) \<and>
     persisted s' =
       (if collect_patch ent Map.empty inputs = Map.empty then persisted s
        else patches s' # persisted s)"
proof (cases "collect_patch ent Map.empty inputs = Map.empty")
  case True
  with savePatch_unchanged [OF assms True] show ?thesis
    by (simp add: closeModal_def)
next
  case False
  with savePatch_changed [OF assms False] show ?thesis
    by (simp add: closeModal_def savePatches_def)
qed

text \<open>
  Every patch that \<open>savePatch\<close> writes has at least one field, so a store whose
  patches are all non-empty stays so.
\<close>

lemma savePatch_keeps_patches_nonempty:
  assumes editing: "editingEntry s = Some (ty, ent)"
    and inv: "\<forall>key patch. patches s key = Some patch \<longrightarrow> patch \<noteq> Map.empty"
    and run: "savePatch s inputs = Inr s'"
  shows "\<forall>key patch. patches s' key = Some patch \<longrightarrow> patch \<noteq> Map.empty"
proof (cases "collect_patch ent Map.empty inputs = Map.empty")
  case True
  from savePatch_unchanged [OF editing True] run have "s' = closeModal s" by simp
  with inv show ?thesis by (simp add: closeModal_def)
next
  case False
  let ?key = "patch_key_of ty ent"
  let ?new = "(case patches s ?key of None \<Rightarrow> Map.empty | Some old \<Rightarrow> old)
                ++ collect_patch ent Map.empty inputs"
  from savePatch_changed [OF editing False] run
  have ps: "patches s' = (patches s)(?key \<mapsto> ?new)"
    by (auto simp: closeModal_def savePatches_def)
  from False have new: "?new \<noteq> Map.empty" by simp
  show ?thesis
  proof (intro allI impI)
    fix key patch
    assume stored: "patches s' key = Some patch"
    show "patch \<noteq> Map.empty"
    proof (cases "key = ?key")
      case True
      with stored ps have "patch = ?new" by simp
      with new show ?thesis by simp
    next
      case False
      with stored ps have "patches s key = Some patch" by simp
      with inv show ?thesis by blast
    qed
  qed
qed

text \<open>
  C7. While an entry is being edited: when every submitted value equals the original
  record's value for its field (an absent field counting as empty text), \<open>savePatch\<close>
  leaves the patch store as it was and hands nothing to \<open>savePatches\<close>; and whatever
  is submitted, a field of the patch stored afterwards under the record's key either was
  submitted with a value that differs from the original record's, or was in the patch
  stored there before.
\<close>

theorem savePatch_noop:
  assumes "editingEntry s = Some (ty, ent)"
  shows "((\<forall>(field, v) \<in> set inputs. v = base_text ent field) \<longrightarrow>
            (\<exists>s'. savePatch s inputs = Inr s' \<and> patches s' = patches s \<and>
                  persisted s' = persisted s)) \<and>
         (\<forall>s' patch field v.
            savePatch s inputs = Inr s' \<and> patches s' (patch_key_of ty ent) = Some patch \<and>
            patch field = Some v \<longrightarrow>
            ((field, v) \<in> set inputs \<and> v \<noteq> base_text ent field) \<or>
            (\<exists>old. patches s (patch_key_of ty ent) = Some old \<and> old field = Some v))"
proof (intro conjI impI allI)
  assume same: "\<forall>(field, v) \<in> set inputs. v = base_text ent field"
  have "collect_patch ent Map.empty inputs f = None" for f
    using collect_patch_unchanged [of f inputs ent Map.empty] same by auto
  then have "collect_patch ent Map.empty inputs = Map.empty" by (simp add: fun_eq_iff)
  with savePatch_result [OF assms, of inputs]
  show "\<exists>s'. savePatch s inputs = Inr s' \<and> patches s' = patches s \<and> persisted s' = persisted s"
    by auto
next
  fix s' patch field v
  assume h: "savePatch s inputs = Inr s' \<and> patches s' (patch_key_of ty ent) = Some patch \<and>
            patch field = Some v"
  let ?edit = "collect_patch ent Map.empty inputs"
  show "((field, v) \<in> set inputs \<and> v \<noteq> base_text ent field) \<or>
        (\<exists>old. patches s (patch_key_of ty ent) = Some old \<and> old field = Some v)"
  proof (cases "?edit = Map.empty")
    case True
    with savePatch_result [OF assms, of inputs] h show ?thesis by auto
  next
    case False
    with savePatch_result [OF assms, of inputs] h
    have patch: "patch = (case patches s (patch_key_of ty ent) of None \<Rightarrow> Map.empty | Some old \<Rightarrow> old) ++ ?edit"
      by auto
    show ?thesis
    proof (cases "?edit field")
      case None
      with patch h show ?thesis by (auto simp: map_add_def split: option.splits)
    next
      case (Some u)
      with patch h have "u = v" by (simp add: map_add_def)
      with Some collect_patch_origin [of ent Map.empty inputs field v] show ?thesis by simp
    qed
  qed
qed

theorem savePatch_noop_witness:
  "(\<exists>s'. savePatch
           ((initial_state Map.empty)\<lparr>editingEntry :=
              Some (Glossary, [''id'' \<mapsto> ''g1'', ''form'' \<mapsto> ''ama'', ''gloss'' \<mapsto> ''love''])\<rparr>)
           [(''form'', ''ama''), (''gloss'', ''love''), (''pos'', ''''), (''notes'', '''')] = Inr s' \<and>
         patches s' = Map.empty \<and> persisted s' = []) \<and>
   savePatch
     ((initial_state Map.empty)\<lparr>editingEntry :=
        Some (Glossary, [''id'' \<mapsto> ''g1'', ''form'' \<mapsto> ''ama'', ''gloss'' \<mapsto> ''love''])\<rparr>)
     [(''form'', ''ama''), (''gloss'', ''love (intr.)''), (''pos'', ''''), (''notes'', '''')]
   = Inr ((initial_state [''glossary:g1'' \<mapsto> [''gloss'' \<mapsto> ''love (intr.)'']])
            \<lparr>persisted := [[''glossary:g1'' \<mapsto> [''gloss'' \<mapsto> ''love (intr.)'']]]\<rparr>) \<and>
   (''gloss'', ''love (intr.)'') \<in>
      set [(''form'', ''ama''), (''gloss'', ''love (intr.)''), (''pos'', ''''), (''notes'', '''')] \<and>
   ''love (intr.)'' \<noteq> base_text [''id'' \<mapsto> ''g1'', ''form'' \<mapsto> ''ama'', ''gloss'' \<mapsto> ''love''] ''gloss''"
proof -
  let ?ent = "[''id'' \<mapsto> ''g1'', ''form'' \<mapsto> ''ama'', ''gloss'' \<mapsto> ''love'']"
  let ?s = "(initial_state Map.empty)\<lparr>editingEntry := Some (Glossary, ?ent)\<rparr>"
  let ?same = "[(''form'', ''ama''), (''gloss'', ''love''), (''pos'', ''''), (''notes'', '''')]"
  let ?edit = "[(''form'', ''ama''), (''gloss'', ''love (intr.)''), (''pos'', ''''), (''notes'', '''')]"
  let ?s' = "(initial_state [''glossary:g1'' \<mapsto> [''gloss'' \<mapsto> ''love (intr.)'']])
               \<lparr>persisted := [[''glossary:g1'' \<mapsto> [''gloss'' \<mapsto> ''love (intr.)'']]]\<rparr>"
  have editing: "editingEntry ?s = Some (Glossary, ?ent)" by simp
  have same: "\<forall>(field, v) \<in> set ?same. v = base_text ?ent field"
    by (simp add: base_text_def)
  have collected: "collect_patch ?ent Map.empty ?edit = [''gloss'' \<mapsto> ''love (intr.)'']"
    by (simp add: or_empty_def)
  have key: "getPatchKey Glossary (?ent ''id'') = ''glossary:g1''"
    by (simp add: getPatchKey_def to_string_def)
  have run: "savePatch ?s ?edit = Inr ?s'"
    unfolding savePatch_def
    apply (simp only: State.simps option.case prod.case Let_def entity_kind.simps if_False
        collected key)
    apply (simp add: closeModal_def savePatches_def)
    done
  have stored: "patches ?s' (patch_key_of Glossary ?ent) = Some [''gloss'' \<mapsto> ''love (intr.)'']"
    by (simp add: patch_key_of_def getPatchKey_def to_string_def)
  have field: "[''gloss'' \<mapsto> ''love (intr.)''] ''gloss'' = Some ''love (intr.)''" by simp
  have first: "\<exists>s'. savePatch ?s ?same = Inr s' \<and> patches s' = Map.empty \<and> persisted s' = []"
    using savePatch_noop [OF editing, of ?same, THEN conjunct1, THEN mp, OF same] by simp
  have "((''gloss'', ''love (intr.)'') \<in> set ?edit \<and> ''love (intr.)'' \<noteq> base_text ?ent ''gloss'') \<or>
        (\<exists>old. patches ?s (patch_key_of Glossary ?ent) = Some old \<and> old ''gloss'' = Some ''love (intr.)'')"
    by (rule savePatch_noop [OF editing, of ?edit, THEN conjunct2, rule_format,
          OF conjI [OF run conjI [OF stored field]]])
  then have second: "(''gloss'', ''love (intr.)'') \<in> set ?edit \<and> ''love (intr.)'' \<noteq> base_text ?ent ''gloss''"
    by simp
  from first run second show ?thesis by (intro conjI) simp_all
qed

lemma savePatch_one_edit:
  assumes editing: "editingEntry s = Some (ty, ent)" and d: "distinct (map fst e)"
  shows "\<exists>s'. savePatch s e = Inr s' \<and>
     (\<forall>f v. (f, v) \<in> set e \<and> v \<noteq> base_text ent f \<longrightarrow>
        (\<exists>p. patches s' (patch_key_of ty ent) = Some p \<and> p f = Some v)) \<and>
     (\<forall>old f. patches s (patch_key_of ty ent) = Some old \<and>
        (\<forall>v. (f, v) \<in> set e \<longrightarrow> v = base_text ent f) \<longrightarrow>
        (\<exists>p. patches s' (patch_key_of ty ent) = Some p \<and> p f = old f))"
proof -
  let ?edit = "collect_patch ent Map.empty e"
  let ?key = "patch_key_of ty ent"
  let ?prev = "case patches s ?key of None \<Rightarrow> Map.empty | Some old \<Rightarrow> old"
  from savePatch_result [OF editing, of e] obtain s' where
    res: "savePatch s e = Inr s' \<and> editingEntry s' = None \<and>
      patches s' = (if ?edit = Map.empty then patches s else (patches s)(?key \<mapsto> ?prev ++ ?edit)) \<and>
      persisted s' = (if ?edit = Map.empty then persisted s else patches s' # persisted s)" ..
  from res have run: "savePatch s e = Inr s'" by (rule conjunct1)
  from res have
    ps: "patches s' = (if ?edit = Map.empty then patches s else (patches s)(?key \<mapsto> ?prev ++ ?edit))"
    by (elim conjE)
  have new: "\<exists>p. patches s' ?key = Some p \<and> p f = Some v"
    if fv: "(f, v) \<in> set e \<and> v \<noteq> base_text ent f" for f v
  proof -
    from fv d have "map_of e f = Some v" by simp
    with fv collect_patch_lookup [OF d, of ent Map.empty f] have hit: "?edit f = Some v" by simp
    then have "?edit \<noteq> Map.empty" by (metis option.distinct(1))
    with ps have a: "patches s' ?key = Some (?prev ++ ?edit)" by simp
    from hit have b: "(?prev ++ ?edit) f = Some v" by (simp add: map_add_def)
    show ?thesis by (rule exI [of _ "?prev ++ ?edit"], rule conjI [OF a b])
  qed
  have keep: "\<exists>p. patches s' ?key = Some p \<and> p f = old f"
    if h: "patches s ?key = Some old \<and> (\<forall>v. (f, v) \<in> set e \<longrightarrow> v = base_text ent f)" for old f
  proof -
    from h have miss: "?edit f = None"
      using collect_patch_unchanged [of f e ent Map.empty] by simp
    show ?thesis
    proof (cases "?edit = Map.empty")
      case True
      with ps h show ?thesis by simp
    next
      case False
      with ps h have a: "patches s' ?key = Some (old ++ ?edit)" by simp
      from miss have b: "(old ++ ?edit) f = old f" by (simp add: map_add_def)
      show ?thesis by (rule exI [of _ "old ++ ?edit"], rule conjI [OF a b])
    qed
  qed
  show ?thesis
  proof (rule exI [of _ s'], intro conjI allI impI)
    show "savePatch s e = Inr s'" by (rule run)
  next
    fix f v
    assume "(f, v) \<in> set e \<and> v \<noteq> base_text ent f"
    then show "\<exists>p. patches s' ?key = Some p \<and> p f = Some v" by (rule new)
  next
    fix old f
    assume "patches s ?key = Some old \<and> (\<forall>v. (f, v) \<in> set e \<longrightarrow> v = base_text ent f)"
    then show "\<exists>p. patches s' ?key = Some p \<and> p f = old f" by (rule keep)
  qed
qed

text \<open>
  C6. While an entry is being edited, with one input per field: saving an edit stores
  every submitted value that differs from the original record under the record's key
  (the new value wins over a previously patched one), and keeps every previously patched
  field for which no differing value was submitted. Hence after saving \<open>e1\<close>, opening
  the dialog on the same entry again and saving \<open>e2\<close>, where \<open>e1\<close> and \<open>e2\<close> name
  disjoint fields, the stored patch has every differing value of both edits.
\<close>

theorem savePatch_merge:
  assumes editing: "editingEntry s = Some (ty, ent)"
    and d1: "distinct (map fst e1)" and d2: "distinct (map fst e2)"
  shows "\<exists>s1. savePatch s e1 = Inr s1 \<and>
     (\<forall>f v. (f, v) \<in> set e1 \<and> v \<noteq> base_text ent f \<longrightarrow>
        (\<exists>p. patches s1 (patch_key_of ty ent) = Some p \<and> p f = Some v)) \<and>
     (\<forall>old f. patches s (patch_key_of ty ent) = Some old \<and>
        (\<forall>v. (f, v) \<in> set e1 \<longrightarrow> v = base_text ent f) \<longrightarrow>
        (\<exists>p. patches s1 (patch_key_of ty ent) = Some p \<and> p f = old f)) \<and>
     (\<exists>s2. savePatch (openEditModal ty ent s1) e2 = Inr s2 \<and>
        (fst ` set e1 \<inter> fst ` set e2 = {} \<longrightarrow>
           (\<forall>f v. (f, v) \<in> set e1 \<union> set e2 \<and> v \<noteq> base_text ent f \<longrightarrow>
              (\<exists>p. patches s2 (patch_key_of ty ent) = Some p \<and> p f = Some v))))"
proof -
  let ?key = "patch_key_of ty ent"
  from savePatch_one_edit [OF editing d1] obtain s1 where
    r1: "savePatch s e1 = Inr s1 \<and>
     (\<forall>f v. (f, v) \<in> set e1 \<and> v \<noteq> base_text ent f \<longrightarrow>
        (\<exists>p. patches s1 ?key = Some p \<and> p f = Some v)) \<and>
     (\<forall>old f. patches s ?key = Some old \<and>
        (\<forall>v. (f, v) \<in> set e1 \<longrightarrow> v = base_text ent f) \<longrightarrow>
        (\<exists>p. patches s1 ?key = Some p \<and> p f = old f))" ..
  note new1 = r1 [THEN conjunct2, THEN conjunct1, rule_format]
  have editing2: "editingEntry (openEditModal ty ent s1) = Some (ty, ent)"
    and same: "patches (openEditModal ty ent s1) = patches s1"
    by (simp_all add: openEditModal_def)
  from savePatch_one_edit [OF editing2 d2, unfolded same] obtain s2 where
    r2: "savePatch (openEditModal ty ent s1) e2 = Inr s2 \<and>
     (\<forall>f v. (f, v) \<in> set e2 \<and> v \<noteq> base_text ent f \<longrightarrow>
        (\<exists>p. patches s2 ?key = Some p \<and> p f = Some v)) \<and>
     (\<forall>old f. patches s1 ?key = Some old \<and>
        (\<forall>v. (f, v) \<in> set e2 \<longrightarrow> v = base_text ent f) \<longrightarrow>
        (\<exists>p. patches s2 ?key = Some p \<and> p f = old f))" ..
  from r2 have run2: "savePatch (openEditModal ty ent s1) e2 = Inr s2" by (rule conjunct1)
  note new2 = r2 [THEN conjunct2, THEN conjunct1, rule_format]
  note keep2 = r2 [THEN conjunct2, THEN conjunct2, rule_format]
  have both: "\<exists>p. patches s2 ?key = Some p \<and> p f = Some v"
    if disjoint: "fst ` set e1 \<inter> fst ` set e2 = {}"
      and fv: "(f, v) \<in> set e1 \<union> set e2 \<and> v \<noteq> base_text ent f" for f v
  proof (cases "(f, v) \<in> set e2")
    case True
    with fv show ?thesis by (intro new2) simp
  next
    case False
    with fv have in1: "(f, v) \<in> set e1" by simp
    with fv have "\<exists>p. patches s1 ?key = Some p \<and> p f = Some v" by (intro new1) simp
    then obtain p1 where p1: "patches s1 ?key = Some p1 \<and> p1 f = Some v" ..
    from in1 have "f \<in> fst ` set e1" by force
    with disjoint have "f \<notin> fst ` set e2" by blast
    then have "\<forall>u. (f, u) \<in> set e2 \<longrightarrow> u = base_text ent f" by force
    with p1 have "patches s1 ?key = Some p1 \<and> (\<forall>u. (f, u) \<in> set e2 \<longrightarrow> u = base_text ent f)"
      by simp
    from keep2 [OF this] obtain p where p: "patches s2 ?key = Some p \<and> p f = p1 f" ..
    with p1 have "patches s2 ?key = Some p \<and> p f = Some v" by simp
    then show ?thesis by (rule exI [of _ p])
  qed
  have second: "\<exists>s2. savePatch (openEditModal ty ent s1) e2 = Inr s2 \<and>
        (fst ` set e1 \<inter> fst ` set e2 = {} \<longrightarrow>
           (\<forall>f v. (f, v) \<in> set e1 \<union> set e2 \<and> v \<noteq> base_text ent f \<longrightarrow>
              (\<exists>p. patches s2 ?key = Some p \<and> p f = Some v)))"
  proof (rule exI [of _ s2], intro conjI allI impI)
    show "savePatch (openEditModal ty ent s1) e2 = Inr s2" by (rule run2)
  next
    fix f v
    assume "fst ` set e1 \<inter> fst ` set e2 = {}"
      and "(f, v) \<in> set e1 \<union> set e2 \<and> v \<noteq> base_text ent f"
    then show "\<exists>p. patches s2 ?key = Some p \<and> p f = Some v" by (rule both)
  qed
  from r1 second have "savePatch s e1 = Inr s1 \<and>
     (\<forall>f v. (f, v) \<in> set e1 \<and> v \<noteq> base_text ent f \<longrightarrow>
        (\<exists>p. patches s1 ?key = Some p \<and> p f = Some v)) \<and>
     (\<forall>old f. patches s ?key = Some old \<and>
        (\<forall>v. (f, v) \<in> set e1 \<longrightarrow> v = base_text ent f) \<longrightarrow>
        (\<exists>p. patches s1 ?key = Some p \<and> p f = old f)) \<and>
     (\<exists>s2. savePatch (openEditModal ty ent s1) e2 = Inr s2 \<and>
        (fst ` set e1 \<inter> fst ` set e2 = {} \<longrightarrow>
           (\<forall>f v. (f, v) \<in> set e1 \<union> set e2 \<and> v \<noteq> base_text ent f \<longrightarrow>
              (\<exists>p. patches s2 ?key = Some p \<and> p f = Some v))))"
    by (elim conjE) (intro conjI)
  then show ?thesis by (rule exI [of _ s1])
qed

theorem savePatch_merge_witness:
  "\<exists>s1 s2.
     savePatch
       ((initial_state [''glossary:g1'' \<mapsto> [''gloss'' \<mapsto> ''love (intr.)'']])\<lparr>editingEntry :=
          Some (Glossary, [''id'' \<mapsto> ''g1'', ''form'' \<mapsto> ''ama'', ''gloss'' \<mapsto> ''love''])\<rparr>)
       [(''pos'', ''v'')] = Inr s1 \<and>
     savePatch
       (openEditModal Glossary [''id'' \<mapsto> ''g1'', ''form'' \<mapsto> ''ama'', ''gloss'' \<mapsto> ''love''] s1)
       [(''notes'', ''checked'')] = Inr s2 \<and>
     (\<exists>p. patches s1 ''glossary:g1'' = Some p \<and> p ''gloss'' = Some ''love (intr.)'') \<and>
     (\<exists>p. patches s2 ''glossary:g1'' = Some p \<and> p ''pos'' = Some ''v'') \<and>
     (\<exists>p. patches s2 ''glossary:g1'' = Some p \<and> p ''notes'' = Some ''checked'')"
proof -
  let ?ent = "[''id'' \<mapsto> ''g1'', ''form'' \<mapsto> ''ama'', ''gloss'' \<mapsto> ''love'']"
  let ?old = "[''gloss'' \<mapsto> ''love (intr.)'']"
  let ?s = "(initial_state [''glossary:g1'' \<mapsto> ?old])\<lparr>editingEntry := Some (Glossary, ?ent)\<rparr>"
  let ?e1 = "[(''pos'', ''v'')]"
  let ?e2 = "[(''notes'', ''checked'')]"
  have editing: "editingEntry ?s = Some (Glossary, ?ent)" by simp
  have d1: "distinct (map fst ?e1)" and d2: "distinct (map fst ?e2)" by simp_all
  have key: "patch_key_of Glossary ?ent = ''glossary:g1''"
    by (simp add: patch_key_of_def getPatchKey_def to_string_def)
  have disjoint: "fst ` set ?e1 \<inter> fst ` set ?e2 = {}" by simp
  have before: "patches ?s ''glossary:g1'' = Some ?old \<and>
      (\<forall>v. (''gloss'', v) \<in> set ?e1 \<longrightarrow> v = base_text ?ent ''gloss'')"
    by simp
  have pos_in: "(''pos'', ''v'') \<in> set ?e1 \<union> set ?e2 \<and> ''v'' \<noteq> base_text ?ent ''pos''"
    by (simp add: base_text_def)
  have notes_in: "(''notes'', ''checked'') \<in> set ?e1 \<union> set ?e2 \<and> ''checked'' \<noteq> base_text ?ent ''notes''"
    by (simp add: base_text_def)
  from savePatch_merge [OF editing d1 d2, unfolded key] obtain s1 where
    r1: "savePatch ?s ?e1 = Inr s1 \<and>
     (\<forall>f v. (f, v) \<in> set ?e1 \<and> v \<noteq> base_text ?ent f \<longrightarrow>
        (\<exists>p. patches s1 ''glossary:g1'' = Some p \<and> p f = Some v)) \<and>
     (\<forall>old f. patches ?s ''glossary:g1'' = Some old \<and>
        (\<forall>v. (f, v) \<in> set ?e1 \<longrightarrow> v = base_text ?ent f) \<longrightarrow>
        (\<exists>p. patches s1 ''glossary:g1'' = Some p \<and> p f = old f)) \<and>
     (\<exists>s2. savePatch (openEditModal Glossary ?ent s1) ?e2 = Inr s2 \<and>
        (fst ` set ?e1 \<inter> fst ` set ?e2 = {} \<longrightarrow>
           (\<forall>f v. (f, v) \<in> set ?e1 \<union> set ?e2 \<and> v \<noteq> base_text ?ent f \<longrightarrow>
              (\<exists>p. patches s2 ''glossary:g1'' = Some p \<and> p f = Some v))))" ..
  note run1 = r1 [THEN conjunct1]
  note keep1 = r1 [THEN conjunct2, THEN conjunct2, THEN conjunct1]
  from r1 [THEN conjunct2, THEN conjunct2, THEN conjunct2] obtain s2 where
    r2: "savePatch (openEditModal Glossary ?ent s1) ?e2 = Inr s2 \<and>
        (fst ` set ?e1 \<inter> fst ` set ?e2 = {} \<longrightarrow>
           (\<forall>f v. (f, v) \<in> set ?e1 \<union> set ?e2 \<and> v \<noteq> base_text ?ent f \<longrightarrow>
              (\<exists>p. patches s2 ''glossary:g1'' = Some p \<and> p f = Some v)))" ..
  note run2 = r2 [THEN conjunct1]
  note union = r2 [THEN conjunct2]
  from keep1 [rule_format, OF before]
  have a: "\<exists>p. patches s1 ''glossary:g1'' = Some p \<and> p ''gloss'' = Some ''love (intr.)''" by simp
  from union [rule_format, OF disjoint pos_in]
  have b: "\<exists>p. patches s2 ''glossary:g1'' = Some p \<and> p ''pos'' = Some ''v''" .
  from union [rule_format, OF disjoint notes_in]
  have c: "\<exists>p. patches s2 ''glossary:g1'' = Some p \<and> p ''notes'' = Some ''checked''" .
  show ?thesis
    by (rule exI [of _ s1], rule exI [of _ s2], intro conjI) (rule run1 run2 a b c)+
qed

section \<open>The entries of a word's morphemes\<close>

lemma map_throwing_total:
  "(\<And>x. x \<in> set xs \<Longrightarrow> f x = Inr (g x)) \<Longrightarrow> map_throwing f xs = Inr (map g xs)"
  by (induction xs) simp_all

lemma find_no_match: "list_all (\<lambda>e. \<not> P e) xs \<Longrightarrow> find P xs = None"
  by (simp add: find_None_iff list_all_iff)

lemma morpheme_entry_loaded:
  assumes "glossary s = Some entries" and "rules s = Some all_rules"
  shows "\<exists>item. morpheme_entry s m = Inr item \<and> morpheme item = m"
  using assms by (simp add: morpheme_entry_def unknown_entry_def split: option.splits)

lemma morpheme_entry_dangling:
  assumes "glossary s = Some entries" and "rules s = Some all_rules" and "dangling s m"
  shows "morpheme_entry s m = Inr (unknown_entry m)"
proof (cases "m ''source_type'' = Some ''glossary''")
  case True
  with assms have "list_all (\<lambda>e. \<not> e ''id'' = m ''source_id'') entries"
    by (simp add: dangling_def)
  then have "find (\<lambda>e. e ''id'' = m ''source_id'') entries = None" by (rule find_no_match)
  with True assms show ?thesis by (simp add: morpheme_entry_def)
next
  case False
  with assms have r: "m ''source_type'' = Some ''rule''"
    and "list_all (\<lambda>e. \<not> e ''id'' = m ''source_id'') all_rules"
    by (simp_all add: dangling_def)
  then have "find (\<lambda>e. e ''id'' = m ''source_id'') all_rules = None" by (intro find_no_match)
  with False r assms show ?thesis by (simp add: morpheme_entry_def)
qed

text \<open>
  C9. With the glossary and the rules loaded, \<open>getMorphemeEntries\<close> returns for every
  word one item per morpheme, in the order of the morphemes, and the item of a morpheme
  with a dangling reference is \<open>{type: 'unknown', morpheme}\<close>: the broken reference
  does not make the call fail.
\<close>

theorem getMorphemeEntries_dangling:
  assumes "glossary s = Some entries" and "rules s = Some all_rules"
  shows "\<exists>items. getMorphemeEntries s (Some w) = Inr items \<and>
     length items = length (morphemes w) \<and>
     (\<forall>i < length (morphemes w).
        morpheme (items ! i) = morphemes w ! i \<and>
        (dangling s (morphemes w ! i) \<longrightarrow>
           items ! i = \<lparr>entry_type = ''unknown'', entry = None, originalEntry = None,
                        morpheme = morphemes w ! i\<rparr>))"
proof -
  let ?g = "\<lambda>m. case morpheme_entry s m of Inr item \<Rightarrow> item | Inl err \<Rightarrow> unknown_entry m"
  have each: "morpheme_entry s m = Inr (?g m)" for m
    using morpheme_entry_loaded [OF assms, of m] by auto
  then have run: "getMorphemeEntries s (Some w) = Inr (map ?g (morphemes w))"
    by (simp add: getMorphemeEntries_def map_throwing_total)
  have same: "morpheme (?g m) = m" for m
    using morpheme_entry_loaded [OF assms, of m] by auto
  have unk: "dangling s m \<Longrightarrow> ?g m = unknown_entry m" for m
    using morpheme_entry_dangling [OF assms, of m] by simp
  show ?thesis
  proof (rule exI [of _ "map ?g (morphemes w)"], intro conjI allI impI)
    show "getMorphemeEntries s (Some w) = Inr (map ?g (morphemes w))" by (rule run)
  next
    show "length (map ?g (morphemes w)) = length (morphemes w)" by simp
  next
    fix i assume "i < length (morphemes w)"
    then show "morpheme (map ?g (morphemes w) ! i) = morphemes w ! i" by (simp add: same)
  next
    fix i assume "i < length (morphemes w)" and "dangling s (morphemes w ! i)"
    then show "map ?g (morphemes w) ! i =
      \<lparr>entry_type = ''unknown'', entry = None, originalEntry = None, morpheme = morphemes w ! i\<rparr>"
      by (simp add: unk unknown_entry_def)
  qed
qed

theorem getMorphemeEntries_dangling_witness:
  "\<exists>items.
     getMorphemeEntries
       \<lparr>glossary = Some [[''id'' \<mapsto> ''g1'', ''form'' \<mapsto> ''ama'', ''gloss'' \<mapsto> ''love'']],
        rules = Some [[''id'' \<mapsto> ''r1'', ''form'' \<mapsto> ''-di'', ''gloss'' \<mapsto> ''PAST'']],
        sidebarSearch = [], selectedWord = None, editingEntry = None,
        patches = Map.empty, persisted = []\<rparr>
       (Some \<lparr>word = ''amadi'',
              morphemes = [[''form'' \<mapsto> ''ama'', ''source_type'' \<mapsto> ''glossary'', ''source_id'' \<mapsto> ''g1''],
                           [''form'' \<mapsto> ''di'', ''source_type'' \<mapsto> ''rule'', ''source_id'' \<mapsto> ''r99'']]\<rparr>)
       = Inr items \<and>
     length items = 2 \<and>
     items ! 1 = \<lparr>entry_type = ''unknown'', entry = None, originalEntry = None,
                  morpheme = [''form'' \<mapsto> ''di'', ''source_type'' \<mapsto> ''rule'', ''source_id'' \<mapsto> ''r99'']\<rparr>"
proof -
  let ?s = "\<lparr>glossary = Some [[''id'' \<mapsto> ''g1'', ''form'' \<mapsto> ''ama'', ''gloss'' \<mapsto> ''love'']],
        rules = Some [[''id'' \<mapsto> ''r1'', ''form'' \<mapsto> ''-di'', ''gloss'' \<mapsto> ''PAST'']],
        sidebarSearch = [], selectedWord = None, editingEntry = None,
        patches = Map.empty, persisted = []\<rparr>"
  let ?m = "[''form'' \<mapsto> ''di'', ''source_type'' \<mapsto> ''rule'', ''source_id'' \<mapsto> ''r99'']"
  let ?w = "\<lparr>word = ''amadi'',
              morphemes = [[''form'' \<mapsto> ''ama'', ''source_type'' \<mapsto> ''glossary'', ''source_id'' \<mapsto> ''g1''], ?m]\<rparr>"
  have g: "glossary ?s = Some [[''id'' \<mapsto> ''g1'', ''form'' \<mapsto> ''ama'', ''gloss'' \<mapsto> ''love'']]"
    and r: "rules ?s = Some [[''id'' \<mapsto> ''r1'', ''form'' \<mapsto> ''-di'', ''gloss'' \<mapsto> ''PAST'']]"
    by simp_all
  have second: "1 < length (morphemes ?w)" and is_m: "morphemes ?w ! 1 = ?m" by simp_all
  have broken: "dangling ?s (morphemes ?w ! 1)"
    by (simp add: dangling_def)
  from getMorphemeEntries_dangling [OF g r, of ?w] obtain items where
    res: "getMorphemeEntries ?s (Some ?w) = Inr items \<and>
     length items = length (morphemes ?w) \<and>
     (\<forall>i < length (morphemes ?w).
        morpheme (items ! i) = morphemes ?w ! i \<and>
        (dangling ?s (morphemes ?w ! i) \<longrightarrow>
           items ! i = \<lparr>entry_type = ''unknown'', entry = None, originalEntry = None,
                        morpheme = morphemes ?w ! i\<rparr>))" ..
  note run = res [THEN conjunct1]
  from res [THEN conjunct2, THEN conjunct1] have len: "length items = 2" by simp
  from res [THEN conjunct2, THEN conjunct2, rule_format, OF second, THEN conjunct2, THEN mp, OF broken]
  have item: "items ! 1 = \<lparr>entry_type = ''unknown'', entry = None, originalEntry = None, morpheme = ?m\<rparr>"
    unfolding is_m .
  show ?thesis
    by (rule exI [of _ items], intro conjI) (rule run len item)+
qed

section \<open>The glossary view and the rule view\<close>

lemma filter_throwing_pure:
  "(\<And>x. x \<in> set xs \<Longrightarrow> p x = Inr (q x)) \<Longrightarrow> filter_throwing p xs = Inr (filter q xs)"
  by (induction xs) simp_all

lemma compare_form_present:
  "a ''form'' \<noteq> None \<Longrightarrow> compare_form lc a b = Inr (lc (form_text a) (form_text b))"
  by (auto simp: compare_form_def form_text_def to_string_def)

lemma insert_sorted_pure:
  "a ''form'' \<noteq> None \<Longrightarrow>
   insert_sorted (compare_form lc) a bs = Inr (insert_by_form lc a bs)"
  by (induction bs) (simp_all add: compare_form_present)

lemma array_sort_pure:
  "(\<And>e. e \<in> set es \<Longrightarrow> e ''form'' \<noteq> None) \<Longrightarrow>
   array_sort (compare_form lc) es = Inr (sort_by_form lc es)"
  by (induction es) (simp_all add: insert_sorted_pure)

lemma mset_insert_by_form: "mset (insert_by_form lc a bs) = add_mset a (mset bs)"
  by (induction bs) simp_all

lemma mset_sort_by_form: "mset (sort_by_form lc es) = mset es"
  by (induction es) (simp_all add: mset_insert_by_form)

lemma set_insert_by_form: "set (insert_by_form lc a bs) = insert a (set bs)"
  using mset_insert_by_form [of lc a bs, THEN arg_cong, of set_mset] by simp

lemma ascending_insert_by_form:
  assumes "total_preorder lc" and "ascending_by_form lc bs"
  shows "ascending_by_form lc (insert_by_form lc a bs)"
  using assms(2)
proof (induction bs)
  case Nil
  then show ?case by (simp add: ascending_by_form_def)
next
  case (Cons b bs)
  from assms(1) have total: "lc x y \<le> 0 \<or> lc y x \<le> 0"
    and trans: "lc x y \<le> 0 \<Longrightarrow> lc y z \<le> 0 \<Longrightarrow> lc x z \<le> 0" for x y z
    unfolding total_preorder_def by blast+
  from Cons.prems have tail: "ascending_by_form lc bs"
    and head: "\<And>x. x \<in> set bs \<Longrightarrow> lc (form_text b) (form_text x) \<le> 0"
    by (simp_all add: ascending_by_form_def)
  show ?case
  proof (cases "lc (form_text a) (form_text b) \<le> 0")
    case True
    then have "\<And>x. x \<in> set bs \<Longrightarrow> lc (form_text a) (form_text x) \<le> 0"
      using head trans by blast
    with True Cons.prems show ?thesis by (simp add: ascending_by_form_def)
  next
    case False
    with total [of "form_text a" "form_text b"] have "lc (form_text b) (form_text a) \<le> 0" by simp
    with head have "\<And>x. x \<in> set (insert_by_form lc a bs) \<Longrightarrow> lc (form_text b) (form_text x) \<le> 0"
      by (auto simp: set_insert_by_form)
    with False Cons.IH [OF tail] show ?thesis by (simp add: ascending_by_form_def)
  qed
qed

lemma ascending_sort_by_form:
  "total_preorder lc \<Longrightarrow> ascending_by_form lc (sort_by_form lc es)"
proof (induction es)
  case Nil
  then show ?case by (simp add: ascending_by_form_def)
next
  case (Cons a es)
  then show ?case by (simp add: ascending_insert_by_form)
qed

lemma ascending_take: "ascending_by_form lc es \<Longrightarrow> ascending_by_form lc (take n es)"
  by (simp add: ascending_by_form_def)

lemma patched_field_present:
  "e f \<noteq> None \<Longrightarrow> getEntryWithPatch s ty e f \<noteq> None"
  by (simp add: getEntryWithPatch_key map_add_def split: option.splits)

lemma glossary_matches_pure:
  assumes "e ''form'' \<noteq> None" and "e ''gloss'' \<noteq> None" and "lower (sidebarSearch s) \<noteq> []"
  shows "glossary_matches lower s (lower (sidebarSearch s)) e = Inr (glossary_hit lower s e)"
proof -
  from assms(1) obtain f where f: "getEntryWithPatch s Glossary e ''form'' = Some f"
    using patched_field_present [of e "''form''" s Glossary] by auto
  from assms(2) obtain g where g: "getEntryWithPatch s Glossary e ''gloss'' = Some g"
    using patched_field_present [of e "''gloss''" s Glossary] by auto
  from f g assms(3) show ?thesis
    by (simp add: glossary_matches_def glossary_hit_def to_string_def Let_def)
qed

lemma glossary_scope_code:
  "(case selectedWord s of
      None \<Rightarrow> entries
    | Some selected \<Rightarrow>
        if length (sourceIds ''glossary'' selected) > 0
        then filter (\<lambda>e. e ''id'' \<in> set (sourceIds ''glossary'' selected)) entries
        else entries) = glossary_scope s entries"
  by (simp add: glossary_scope_def split: option.splits)

lemma glossary_scope_subset: "set (glossary_scope s entries) \<subseteq> set entries"
  by (auto simp: glossary_scope_def split: option.splits)

lemma getFilteredGlossary_pure:
  assumes loaded: "glossary s = Some entries"
    and wf: "\<And>e. e \<in> set entries \<Longrightarrow> e ''form'' \<noteq> None \<and> e ''gloss'' \<noteq> None"
  shows "getFilteredGlossary lower lc s =
     Inr (take 50 (sort_by_form lc (filter (glossary_hit lower s) (glossary_scope s entries))))"
proof -
  let ?scoped = "glossary_scope s entries"
  let ?search = "lower (sidebarSearch s)"
  have wf_scoped: "e ''form'' \<noteq> None \<and> e ''gloss'' \<noteq> None" if "e \<in> set ?scoped" for e
    using that glossary_scope_subset [of s entries] wf by blast
  have found: "(if ?search \<noteq> [] then filter_throwing (glossary_matches lower s ?search) ?scoped
                else Inr ?scoped) = Inr (filter (glossary_hit lower s) ?scoped)"
  proof (cases "?search = []")
    case True
    then show ?thesis by (simp add: glossary_hit_def)
  next
    case False
    have "filter_throwing (glossary_matches lower s ?search) ?scoped
          = Inr (filter (glossary_hit lower s) ?scoped)"
      by (rule filter_throwing_pure) (simp add: glossary_matches_pure wf_scoped False)
    with False show ?thesis by simp
  qed
  have sorted: "array_sort (compare_form lc) (filter (glossary_hit lower s) ?scoped)
      = Inr (sort_by_form lc (filter (glossary_hit lower s) ?scoped))"
    by (rule array_sort_pure) (simp add: wf_scoped)
  show ?thesis
    unfolding getFilteredGlossary_def loaded option.case Let_def glossary_scope_code found sum.case
      sorted
    by (rule refl)
qed

lemma rule_matches_pure:
  assumes "r ''form'' \<noteq> None" and "r ''gloss'' \<noteq> None" and "r ''description'' \<noteq> None"
    and "lower (sidebarSearch s) \<noteq> []"
  shows "rule_matches lower s (lower (sidebarSearch s)) r = Inr (rule_hit lower s r)"
proof -
  from assms(1) obtain f where f: "getEntryWithPatch s Rule r ''form'' = Some f"
    using patched_field_present [of r "''form''" s Rule] by auto
  from assms(2) obtain g where g: "getEntryWithPatch s Rule r ''gloss'' = Some g"
    using patched_field_present [of r "''gloss''" s Rule] by auto
  from assms(3) obtain d where d: "getEntryWithPatch s Rule r ''description'' = Some d"
    using patched_field_present [of r "''description''" s Rule] by auto
  from f g d assms(4) show ?thesis
    by (simp add: rule_matches_def rule_hit_def to_string_def Let_def)
qed

lemma rule_scope_code:
  "(case selectedWord s of
      None \<Rightarrow> all_rules
    | Some selected \<Rightarrow>
        if length (sourceIds ''rule'' selected) > 0
        then filter (\<lambda>r. r ''id'' \<in> set (sourceIds ''rule'' selected)) all_rules
        else all_rules) = rule_scope s all_rules"
  by (simp add: rule_scope_def split: option.splits)

lemma rule_scope_subset: "set (rule_scope s all_rules) \<subseteq> set all_rules"
  by (auto simp: rule_scope_def split: option.splits)

lemma getFilteredRules_pure:
  assumes loaded: "rules s = Some all_rules"
    and wf: "\<And>r. r \<in> set all_rules \<Longrightarrow>
               r ''form'' \<noteq> None \<and> r ''gloss'' \<noteq> None \<and> r ''description'' \<noteq> None"
  shows "getFilteredRules lower lc s =
     Inr (sort_by_form lc (filter (rule_hit lower s) (rule_scope s all_rules)))"
proof -
  let ?scoped = "rule_scope s all_rules"
  let ?search = "lower (sidebarSearch s)"
  have wf_scoped: "r ''form'' \<noteq> None \<and> r ''gloss'' \<noteq> None \<and> r ''description'' \<noteq> None"
    if "r \<in> set ?scoped" for r
    using that rule_scope_subset [of s all_rules] wf by blast
  have found: "(if ?search \<noteq> [] then filter_throwing (rule_matches lower s ?search) ?scoped
                else Inr ?scoped) = Inr (filter (rule_hit lower s) ?scoped)"
  proof (cases "?search = []")
    case True
    then show ?thesis by (simp add: rule_hit_def)
  next
    case False
    have "filter_throwing (rule_matches lower s ?search) ?scoped
          = Inr (filter (rule_hit lower s) ?scoped)"
      by (rule filter_throwing_pure) (simp add: rule_matches_pure wf_scoped False)
    with False show ?thesis by simp
  qed
  have sorted: "array_sort (compare_form lc) (filter (rule_hit lower s) ?scoped)
      = Inr (sort_by_form lc (filter (rule_hit lower s) ?scoped))"
    by (rule array_sort_pure) (simp add: wf_scoped)
  show ?thesis
    unfolding getFilteredRules_def loaded option.case Let_def rule_scope_code found sum.case
      sorted
    by (rule refl)
qed

lemma code_unit_compare_total: "code_unit_compare a b \<le> 0 \<or> code_unit_compare b a \<le> 0"
  by (induction a b rule: code_unit_compare.induct) simp_all

lemma code_unit_compare_trans:
  "code_unit_compare a b \<le> 0 \<Longrightarrow> code_unit_compare b c \<le> 0 \<Longrightarrow> code_unit_compare a c \<le> 0"
proof (induction a b arbitrary: c rule: code_unit_compare.induct)
  case 1
  then show ?case by simp
next
  case (2 y ys)
  then show ?case by (cases c) simp_all
next
  case (3 x xs)
  then show ?case by simp
next
  case (4 x xs y ys)
  show ?case
  proof (cases c)
    case Nil
    with "4.prems" show ?thesis by simp
  next
    case (Cons z zs)
    show ?thesis
    proof (cases "(of_char x :: nat) < of_char z")
      case True
      with Cons show ?thesis by simp
    next
      case False
      from "4.prems"(1) have xy: "(of_char x :: nat) \<le> of_char y" by (simp split: if_splits)
      from "4.prems"(2) Cons have yz: "(of_char y :: nat) \<le> of_char z" by (simp split: if_splits)
      from False xy yz have "(of_char x :: nat) = of_char y \<and> (of_char y :: nat) = of_char z"
        by linarith
      then have eq: "x = y" "y = z" by simp_all
      with "4.prems" Cons have "code_unit_compare xs ys \<le> 0" and "code_unit_compare ys zs \<le> 0"
        by simp_all
      with "4.IH" [of zs] eq have "code_unit_compare xs zs \<le> 0" by simp
      with eq Cons show ?thesis by simp
    qed
  qed
qed

lemma total_preorder_code_unit_compare: "total_preorder code_unit_compare"
  unfolding total_preorder_def
  using code_unit_compare_total code_unit_compare_trans by blast

text \<open>
  C3, as stated, fails: the view sorts the entries by the \<open>form\<close> stored in the
  glossary, not by the effective one. Here the entry \<open>g1\<close> has the form \<open>a\<close> and a
  patch that renames it to \<open>z\<close>; it is returned before \<open>g2\<close>, whose form is \<open>b\<close>.
\<close>

theorem getFilteredGlossary_base_order_counterexample:
  "getFilteredGlossary ascii_lower code_unit_compare
     \<lparr>glossary = Some [[''id'' \<mapsto> ''g1'', ''gloss'' \<mapsto> ''x'', ''form'' \<mapsto> ''a''],
                       [''id'' \<mapsto> ''g2'', ''gloss'' \<mapsto> ''y'', ''form'' \<mapsto> ''b'']],
      rules = None, sidebarSearch = [], selectedWord = None, editingEntry = None,
      patches = [''glossary:g1'' \<mapsto> [''form'' \<mapsto> ''z'']], persisted = []\<rparr>
   = Inr [[''id'' \<mapsto> ''g1'', ''gloss'' \<mapsto> ''x'', ''form'' \<mapsto> ''a''],
          [''id'' \<mapsto> ''g2'', ''gloss'' \<mapsto> ''y'', ''form'' \<mapsto> ''b'']] \<and>
   0 < code_unit_compare
         (to_string (getEntryWithPatch
            \<lparr>glossary = Some [[''id'' \<mapsto> ''g1'', ''gloss'' \<mapsto> ''x'', ''form'' \<mapsto> ''a''],
                              [''id'' \<mapsto> ''g2'', ''gloss'' \<mapsto> ''y'', ''form'' \<mapsto> ''b'']],
             rules = None, sidebarSearch = [], selectedWord = None, editingEntry = None,
             patches = [''glossary:g1'' \<mapsto> [''form'' \<mapsto> ''z'']], persisted = []\<rparr>
            Glossary [''id'' \<mapsto> ''g1'', ''gloss'' \<mapsto> ''x'', ''form'' \<mapsto> ''a''] ''form''))
         (to_string (getEntryWithPatch
            \<lparr>glossary = Some [[''id'' \<mapsto> ''g1'', ''gloss'' \<mapsto> ''x'', ''form'' \<mapsto> ''a''],
                              [''id'' \<mapsto> ''g2'', ''gloss'' \<mapsto> ''y'', ''form'' \<mapsto> ''b'']],
             rules = None, sidebarSearch = [], selectedWord = None, editingEntry = None,
             patches = [''glossary:g1'' \<mapsto> [''form'' \<mapsto> ''z'']], persisted = []\<rparr>
            Glossary [''id'' \<mapsto> ''g2'', ''gloss'' \<mapsto> ''y'', ''form'' \<mapsto> ''b''] ''form''))"
proof -
  let ?e1 = "[''id'' \<mapsto> ''g1'', ''gloss'' \<mapsto> ''x'', ''form'' \<mapsto> ''a'']"
  let ?e2 = "[''id'' \<mapsto> ''g2'', ''gloss'' \<mapsto> ''y'', ''form'' \<mapsto> ''b'']"
  let ?s = "\<lparr>glossary = Some [?e1, ?e2],
      rules = None, sidebarSearch = [], selectedWord = None, editingEntry = None,
      patches = [''glossary:g1'' \<mapsto> [''form'' \<mapsto> ''z'']], persisted = []\<rparr>"
  have loaded: "glossary ?s = Some [?e1, ?e2]" by simp
  have wf: "e ''form'' \<noteq> None \<and> e ''gloss'' \<noteq> None" if "e \<in> set [?e1, ?e2]" for e
    using that by auto
  have found: "filter (glossary_hit ascii_lower ?s) (glossary_scope ?s [?e1, ?e2]) = [?e1, ?e2]"
    by (simp add: glossary_hit_def glossary_scope_def ascii_lower_def)
  have order: "sort_by_form code_unit_compare [?e1, ?e2] = [?e1, ?e2]"
    by (simp add: form_text_def to_string_def)
  have "getFilteredGlossary ascii_lower code_unit_compare ?s =
      Inr (take 50 (sort_by_form code_unit_compare
        (filter (glossary_hit ascii_lower ?s) (glossary_scope ?s [?e1, ?e2]))))"
    using loaded wf by (rule getFilteredGlossary_pure)
  then have view: "getFilteredGlossary ascii_lower code_unit_compare ?s = Inr [?e1, ?e2]"
    unfolding found order by simp
  have f1: "getEntryWithPatch ?s Glossary ?e1 ''form'' = Some ''z''"
    by (simp add: getEntryWithPatch_def getPatchKey_def to_string_def)
  have f2: "getEntryWithPatch ?s Glossary ?e2 ''form'' = Some ''b''"
    by (simp add: getEntryWithPatch_def getPatchKey_def to_string_def)
  have gt: "0 < code_unit_compare ''z'' ''b''" by simp
  show ?thesis
    unfolding f1 f2 view by (simp add: to_string_def)
qed

text \<open>
  C3, amended. For every loaded glossary whose entries have a \<open>form\<close> and a \<open>gloss\<close>,
  every patch store, selection and query, and \<open>localeCompare\<close> ordering all text: the
  glossary view returns the first 50 of a list that holds exactly the matching entries
  (those in scope whose effective form or gloss contains the query) and is sorted
  ascending by the stored, unpatched form; so it is itself in that order, it is cut only
  after filtering and sorting, and it never has more than 50 entries.
\<close>

theorem getFilteredGlossary_sorted_truncated:
  assumes loaded: "glossary s = Some entries"
    and wf: "\<forall>e \<in> set entries. e ''form'' \<noteq> None \<and> e ''gloss'' \<noteq> None"
    and order: "total_preorder lc"
  shows "\<exists>ordered. getFilteredGlossary lower lc s = Inr (take 50 ordered) \<and>
     mset ordered = mset (filter (glossary_hit lower s) (glossary_scope s entries)) \<and>
     ascending_by_form lc ordered \<and>
     ascending_by_form lc (take 50 ordered) \<and>
     length (take 50 ordered) \<le> 50"
proof -
  let ?ordered = "sort_by_form lc (filter (glossary_hit lower s) (glossary_scope s entries))"
  from wf have wf': "\<And>e. e \<in> set entries \<Longrightarrow> e ''form'' \<noteq> None \<and> e ''gloss'' \<noteq> None"
    by blast
  have run: "getFilteredGlossary lower lc s = Inr (take 50 ?ordered)"
    using loaded wf' by (rule getFilteredGlossary_pure)
  have perm: "mset ?ordered = mset (filter (glossary_hit lower s) (glossary_scope s entries))"
    by (rule mset_sort_by_form)
  have asc: "ascending_by_form lc ?ordered"
    using order by (rule ascending_sort_by_form)
  then have asc_take: "ascending_by_form lc (take 50 ?ordered)" by (rule ascending_take)
  have len: "length (take 50 ?ordered) \<le> 50" by simp
  show ?thesis
    by (rule exI [of _ ?ordered], intro conjI) (rule run perm asc asc_take len)+
qed

theorem getFilteredGlossary_sorted_truncated_witness:
  "\<exists>ordered.
     getFilteredGlossary ascii_lower code_unit_compare
       \<lparr>glossary = Some [[''id'' \<mapsto> ''g1'', ''gloss'' \<mapsto> ''x'', ''form'' \<mapsto> ''b''],
                         [''id'' \<mapsto> ''g2'', ''gloss'' \<mapsto> ''y'', ''form'' \<mapsto> ''a'']],
        rules = None, sidebarSearch = [], selectedWord = None, editingEntry = None,
        patches = Map.empty, persisted = []\<rparr>
       = Inr (take 50 ordered) \<and>
     ascending_by_form code_unit_compare (take 50 ordered) \<and>
     length (take 50 ordered) \<le> 50"
proof -
  let ?es = "[[''id'' \<mapsto> ''g1'', ''gloss'' \<mapsto> ''x'', ''form'' \<mapsto> ''b''],
              [''id'' \<mapsto> ''g2'', ''gloss'' \<mapsto> ''y'', ''form'' \<mapsto> ''a'']]"
  let ?s = "\<lparr>glossary = Some ?es,
        rules = None, sidebarSearch = [], selectedWord = None, editingEntry = None,
        patches = Map.empty, persisted = []\<rparr>"
  have loaded: "glossary ?s = Some ?es" by simp
  have wf: "\<forall>e \<in> set ?es. e ''form'' \<noteq> None \<and> e ''gloss'' \<noteq> None" by simp
  from getFilteredGlossary_sorted_truncated
    [OF loaded wf total_preorder_code_unit_compare, of ascii_lower]
  obtain ordered where
    res: "getFilteredGlossary ascii_lower code_unit_compare ?s = Inr (take 50 ordered) \<and>
     mset ordered = mset (filter (glossary_hit ascii_lower ?s) (glossary_scope ?s ?es)) \<and>
     ascending_by_form code_unit_compare ordered \<and>
     ascending_by_form code_unit_compare (take 50 ordered) \<and>
     length (take 50 ordered) \<le> 50" ..
  show ?thesis
    by (rule exI [of _ ordered], intro conjI)
      (rule res [THEN conjunct1] res [THEN conjunct2, THEN conjunct2, THEN conjunct2, THEN conjunct1]
        res [THEN conjunct2, THEN conjunct2, THEN conjunct2, THEN conjunct2])+
qed

text \<open>
  C4, as stated, fails for a selected word without glossary-typed morphemes: the view
  then skips the restriction and returns entries the word does not reference.
\<close>

theorem getFilteredGlossary_unscoped_counterexample:
  "getFilteredGlossary ascii_lower code_unit_compare
     \<lparr>glossary = Some [[''id'' \<mapsto> ''g1'', ''gloss'' \<mapsto> ''love'', ''form'' \<mapsto> ''ama'']],
      rules = None, sidebarSearch = [],
      selectedWord = Some \<lparr>word = ''di'',
        morphemes = [[''form'' \<mapsto> ''di'', ''gloss'' \<mapsto> ''?'', ''type'' \<mapsto> ''unknown'']]\<rparr>,
      editingEntry = None, patches = Map.empty, persisted = []\<rparr>
   = Inr [[''id'' \<mapsto> ''g1'', ''gloss'' \<mapsto> ''love'', ''form'' \<mapsto> ''ama'']] \<and>
   Some ''g1'' \<notin> set (sourceIds ''glossary''
       \<lparr>word = ''di'',
        morphemes = [[''form'' \<mapsto> ''di'', ''gloss'' \<mapsto> ''?'', ''type'' \<mapsto> ''unknown'']]\<rparr>)"
proof -
  let ?e = "[''id'' \<mapsto> ''g1'', ''gloss'' \<mapsto> ''love'', ''form'' \<mapsto> ''ama'']"
  let ?w = "\<lparr>word = ''di'',
        morphemes = [[''form'' \<mapsto> ''di'', ''gloss'' \<mapsto> ''?'', ''type'' \<mapsto> ''unknown'']]\<rparr>"
  let ?s = "\<lparr>glossary = Some [?e], rules = None, sidebarSearch = [],
      selectedWord = Some ?w, editingEntry = None, patches = Map.empty, persisted = []\<rparr>"
  have loaded: "glossary ?s = Some [?e]" by simp
  have wf: "e ''form'' \<noteq> None \<and> e ''gloss'' \<noteq> None" if "e \<in> set [?e]" for e
    using that by auto
  have ids: "sourceIds ''glossary'' ?w = []" by (simp add: sourceIds_def)
  have found: "filter (glossary_hit ascii_lower ?s) (glossary_scope ?s [?e]) = [?e]"
    by (simp add: glossary_hit_def glossary_scope_def ascii_lower_def ids)
  have "getFilteredGlossary ascii_lower code_unit_compare ?s =
      Inr (take 50 (sort_by_form code_unit_compare
        (filter (glossary_hit ascii_lower ?s) (glossary_scope ?s [?e]))))"
    using loaded wf by (rule getFilteredGlossary_pure)
  then have view: "getFilteredGlossary ascii_lower code_unit_compare ?s = Inr [?e]"
    unfolding found by simp
  show ?thesis unfolding view ids by simp
qed

text \<open>
  C4, amended. For every loaded glossary whose entries have a \<open>form\<close> and a \<open>gloss\<close>
  and every selected word: when the word has at least one glossary-typed morpheme the
  view keeps only the entries whose own, unpatched \<open>id\<close> is a \<open>source_id\<close> of these
  morphemes, and when it has none the selection does not restrict the view; the query
  then filters the scoped entries, the hits are sorted, and the first 50 are returned.
\<close>

theorem getFilteredGlossary_scoped:
  assumes loaded: "glossary s = Some entries"
    and selected: "selectedWord s = Some w"
    and wf: "\<forall>e \<in> set entries. e ''form'' \<noteq> None \<and> e ''gloss'' \<noteq> None"
  shows "\<exists>result. getFilteredGlossary lower lc s = Inr result \<and>
     result = take 50 (sort_by_form lc (filter (glossary_hit lower s)
                (if sourceIds ''glossary'' w = [] then entries
                 else filter (\<lambda>e. e ''id'' \<in> set (sourceIds ''glossary'' w)) entries))) \<and>
     (sourceIds ''glossary'' w \<noteq> [] \<longrightarrow>
        (\<forall>e \<in> set result. e \<in> set entries \<and> e ''id'' \<in> set (sourceIds ''glossary'' w) \<and>
           glossary_hit lower s e))"
proof -
  let ?scoped = "if sourceIds ''glossary'' w = [] then entries
                 else filter (\<lambda>e. e ''id'' \<in> set (sourceIds ''glossary'' w)) entries"
  let ?result = "take 50 (sort_by_form lc (filter (glossary_hit lower s) ?scoped))"
  from wf have wf': "\<And>e. e \<in> set entries \<Longrightarrow> e ''form'' \<noteq> None \<and> e ''gloss'' \<noteq> None"
    by blast
  have scope: "glossary_scope s entries = ?scoped"
    by (simp add: glossary_scope_def selected)
  have "getFilteredGlossary lower lc s =
      Inr (take 50 (sort_by_form lc (filter (glossary_hit lower s) (glossary_scope s entries))))"
    using loaded wf' by (rule getFilteredGlossary_pure)
  then have run: "getFilteredGlossary lower lc s = Inr ?result"
    unfolding scope .
  have members: "e \<in> set entries \<and> e ''id'' \<in> set (sourceIds ''glossary'' w) \<and> glossary_hit lower s e"
    if ids: "sourceIds ''glossary'' w \<noteq> []" and e: "e \<in> set ?result" for e
  proof -
    from e have "e \<in> set (sort_by_form lc (filter (glossary_hit lower s) ?scoped))"
      by (rule in_set_takeD)
    then have "e \<in># mset (sort_by_form lc (filter (glossary_hit lower s) ?scoped))" by simp
    then have "e \<in> set (filter (glossary_hit lower s) ?scoped)"
      unfolding mset_sort_by_form by simp
    with ids show ?thesis by simp
  qed
  show ?thesis
  proof (rule exI [of _ ?result], intro conjI impI ballI)
    show "getFilteredGlossary lower lc s = Inr ?result" by (rule run)
  next
    show "?result = ?result" by (rule refl)
  next
    fix e assume "sourceIds ''glossary'' w \<noteq> []" and "e \<in> set ?result"
    then have all: "e \<in> set entries \<and> e ''id'' \<in> set (sourceIds ''glossary'' w) \<and> glossary_hit lower s e"
      by (rule members)
    from all show "e \<in> set entries" by (rule conjunct1)
    from all show "e ''id'' \<in> set (sourceIds ''glossary'' w)" by (elim conjE)
    from all show "glossary_hit lower s e" by (elim conjE)
  qed
qed

theorem getFilteredGlossary_scoped_witness:
  "getFilteredGlossary ascii_lower code_unit_compare
     \<lparr>glossary = Some [[''id'' \<mapsto> ''g1'', ''gloss'' \<mapsto> ''love'', ''form'' \<mapsto> ''ama''],
                       [''id'' \<mapsto> ''g2'', ''gloss'' \<mapsto> ''glove'', ''form'' \<mapsto> ''man'']],
      rules = None, sidebarSearch = ''LO'',
      selectedWord = Some \<lparr>word = ''amadi'',
        morphemes = [[''form'' \<mapsto> ''ama'', ''source_type'' \<mapsto> ''glossary'', ''source_id'' \<mapsto> ''g1''],
                     [''form'' \<mapsto> ''di'', ''gloss'' \<mapsto> ''?'', ''type'' \<mapsto> ''unknown'']]\<rparr>,
      editingEntry = None, patches = Map.empty, persisted = []\<rparr>
   = Inr [[''id'' \<mapsto> ''g1'', ''gloss'' \<mapsto> ''love'', ''form'' \<mapsto> ''ama'']]"
proof -
  let ?e1 = "[''id'' \<mapsto> ''g1'', ''gloss'' \<mapsto> ''love'', ''form'' \<mapsto> ''ama'']"
  let ?e2 = "[''id'' \<mapsto> ''g2'', ''gloss'' \<mapsto> ''glove'', ''form'' \<mapsto> ''man'']"
  let ?w = "\<lparr>word = ''amadi'',
        morphemes = [[''form'' \<mapsto> ''ama'', ''source_type'' \<mapsto> ''glossary'', ''source_id'' \<mapsto> ''g1''],
                     [''form'' \<mapsto> ''di'', ''gloss'' \<mapsto> ''?'', ''type'' \<mapsto> ''unknown'']]\<rparr>"
  let ?s = "\<lparr>glossary = Some [?e1, ?e2], rules = None, sidebarSearch = ''LO'',
      selectedWord = Some ?w, editingEntry = None, patches = Map.empty, persisted = []\<rparr>"
  have loaded: "glossary ?s = Some [?e1, ?e2]" and selected: "selectedWord ?s = Some ?w" by simp_all
  have wf: "\<forall>e \<in> set [?e1, ?e2]. e ''form'' \<noteq> None \<and> e ''gloss'' \<noteq> None" by simp
  have ids: "sourceIds ''glossary'' ?w = [Some ''g1'']" by (simp add: sourceIds_def)
  have query: "ascii_lower ''LO'' = ''lo''" by (simp add: ascii_lower_def ascii_lower_char_def)
  have hit: "glossary_hit ascii_lower ?s ?e1"
    by (simp add: glossary_hit_def query getEntryWithPatch_def getPatchKey_def to_string_def
        ascii_lower_def ascii_lower_char_def)
  have scoped: "filter (glossary_hit ascii_lower ?s)
      (if sourceIds ''glossary'' ?w = [] then [?e1, ?e2]
       else filter (\<lambda>e. e ''id'' \<in> set (sourceIds ''glossary'' ?w)) [?e1, ?e2]) = [?e1]"
    unfolding ids using hit by simp
  from getFilteredGlossary_scoped [OF loaded selected wf, of ascii_lower code_unit_compare]
  obtain result where
    res: "getFilteredGlossary ascii_lower code_unit_compare ?s = Inr result \<and>
     result = take 50 (sort_by_form code_unit_compare (filter (glossary_hit ascii_lower ?s)
                (if sourceIds ''glossary'' ?w = [] then [?e1, ?e2]
                 else filter (\<lambda>e. e ''id'' \<in> set (sourceIds ''glossary'' ?w)) [?e1, ?e2]))) \<and>
     (sourceIds ''glossary'' ?w \<noteq> [] \<longrightarrow>
        (\<forall>e \<in> set result. e \<in> set [?e1, ?e2] \<and> e ''id'' \<in> set (sourceIds ''glossary'' ?w) \<and>
           glossary_hit ascii_lower ?s e))" ..
  from res [THEN conjunct2, THEN conjunct1] have "result = [?e1]"
    unfolding scoped by simp
  with res [THEN conjunct1] show ?thesis by simp
qed

text \<open>
  C5 fails on the code: for a rule without \<open>description\<close> and a query found neither in
  its form nor in its gloss, the search callback calls \<open>toLowerCase\<close> on \<open>undefined\<close>,
  and the \<open>TypeError\<close> leaves \<open>getFilteredRules\<close>. (For rules that all have a form, a
  gloss and a description the view returns a list, see \<open>getFilteredRules_pure\<close>.)
\<close>

theorem getFilteredRules_missing_description:
  "getFilteredRules ascii_lower code_unit_compare
     \<lparr>glossary = None,
      rules = Some [[''id'' \<mapsto> ''r1'', ''form'' \<mapsto> ''di'', ''gloss'' \<mapsto> ''PAST'', ''type'' \<mapsto> ''suffix'']],
      sidebarSearch = ''x'', selectedWord = None, editingEntry = None,
      patches = Map.empty, persisted = []\<rparr>
   = Inl TypeError"
proof -
  let ?r = "[''id'' \<mapsto> ''r1'', ''form'' \<mapsto> ''di'', ''gloss'' \<mapsto> ''PAST'', ''type'' \<mapsto> ''suffix'']"
  let ?s = "\<lparr>glossary = None, rules = Some [?r],
      sidebarSearch = ''x'', selectedWord = None, editingEntry = None,
      patches = Map.empty, persisted = []\<rparr>"
  have query: "ascii_lower (sidebarSearch ?s) = ''x''"
    by (simp add: ascii_lower_def ascii_lower_char_def)
  have patched: "getEntryWithPatch ?s Rule ?r = ?r"
    by (simp add: getEntryWithPatch_def getPatchKey_def to_string_def)
  have form: "\<not> str_includes (ascii_lower ''di'') ''x''"
    by (simp add: ascii_lower_def ascii_lower_char_def)
  have gloss: "\<not> str_includes (ascii_lower ''PAST'') ''x''"
    by (simp add: ascii_lower_def ascii_lower_char_def)
  have thrown: "rule_matches ascii_lower ?s ''x'' ?r = Inl TypeError"
    unfolding rule_matches_def patched Let_def using form gloss by simp
  then have "filter_throwing (rule_matches ascii_lower ?s ''x'') [?r] = Inl TypeError"
    by simp
  then show ?thesis
    unfolding getFilteredRules_def Let_def query by simp
qed

end
